theory Spec2Isabelle
  imports Main "HOL-Library.Sublist"
begin

text \<open>
  The controller of prof-tournesol (\<open>tournesol/controller/main.go\<close>) watches the
  diagnostics of a cluster analysis tool, fetches the manifests of the namespace from the
  source host, asks an inference endpoint for a patch, falls back to a local heuristic
  and sends the patch to a publishing service. This theory embeds the functions of the
  controller in HOL and proves the properties of their specification: the dedup gate
  of the event router, the namespace resolution, the retry loops of the file fetch and of
  the inference call, the error results of the publisher and the local fallback.

  Network exchanges, the clock and the decoders of the standard library are inputs of
  the model (the environment of a function); printing to the log is left out.
\<close>

section \<open>Go string primitives\<close>

text \<open>
  Go strings are byte sequences; they are modelled as \<open>string\<close> (a list of 8-bit
  characters). The functions below are the functions of packages \<open>strings\<close>, \<open>strconv\<close>
  and \<open>fmt\<close> that the controller calls. \<open>Index\<close> returns \<open>None\<close> where Go returns \<open>-1\<close>.
\<close>

fun Index :: "string \<Rightarrow> string \<Rightarrow> nat option" where
  "Index [] substr = (if substr = [] then Some 0 else None)"
| "Index (c # s) substr =
     (if prefix substr (c # s) then Some 0 else map_option Suc (Index s substr))"

definition Contains :: "string \<Rightarrow> string \<Rightarrow> bool" where
  "Contains s substr = (Index s substr \<noteq> None)"

definition HasPrefix :: "string \<Rightarrow> string \<Rightarrow> bool" where
  "HasPrefix s p = prefix p s"

definition HasSuffix :: "string \<Rightarrow> string \<Rightarrow> bool" where
  "HasSuffix s p = suffix p s"

definition TrimPrefix :: "string \<Rightarrow> string \<Rightarrow> string" where
  "TrimPrefix s p = (if HasPrefix s p then drop (length p) s else s)"

text \<open>
  \<open>strings.SplitN(s, sep, n)\<close> for a non-empty separator and \<open>n > 0\<close>: at most \<open>n\<close>
  pieces, the last one being the unsplit remainder.
\<close>

fun SplitN :: "string \<Rightarrow> string \<Rightarrow> nat \<Rightarrow> string list" where
  "SplitN s sep 0 = []"
| "SplitN s sep (Suc 0) = [s]"
| "SplitN s sep (Suc (Suc k)) =
     (case Index s sep of
        None \<Rightarrow> [s]
      | Some m \<Rightarrow> take m s # SplitN (drop (m + length sep) s) sep (Suc k))"

text \<open>
  \<open>strings.Split(s, sep)\<close> and \<open>strings.Join(parts, sep)\<close> for a one-byte separator (the
  controller only splits and joins on the newline).
\<close>

fun Split :: "string \<Rightarrow> char \<Rightarrow> string list" where
  "Split [] sep = [[]]"
| "Split (c # s) sep =
     (if c = sep then [] # Split s sep
      else (case Split s sep of
              [] \<Rightarrow> [[c]]
            | l # ls \<Rightarrow> (c # l) # ls))"

fun Join :: "string list \<Rightarrow> char \<Rightarrow> string" where
  "Join [] sep = []"
| "Join [l] sep = l"
| "Join (l # l' # ls) sep = l @ sep # Join (l' # ls) sep"

text \<open>
  \<open>strings.TrimSpace\<close> and \<open>strings.ToLower\<close> are modelled on ASCII: the white space
  of \<open>TrimSpace\<close> is tab, line feed, vertical tab, form feed, carriage return and space,
  and \<open>ToLower\<close> maps \<open>A\<close>..\<open>Z\<close>. On a text with no byte above \<open>0x7F\<close> they are Go's
  functions; Go additionally treats some multi-byte code points as white space or as
  upper case.
\<close>

definition ascii_text :: "string \<Rightarrow> bool" where
  "ascii_text s = list_all (\<lambda>c. (of_char c :: nat) < 128) s"

definition isSpace :: "char \<Rightarrow> bool" where
  "isSpace c = (c \<in> set [CHR 0x09, CHR 0x0A, CHR 0x0B, CHR 0x0C, CHR 0x0D, CHR '' ''])"

definition TrimSpace :: "string \<Rightarrow> string" where
  "TrimSpace s = rev (dropWhile isSpace (rev (dropWhile isSpace s)))"

definition toLower :: "char \<Rightarrow> char" where
  "toLower c = (if 65 \<le> (of_char c :: nat) \<and> (of_char c :: nat) \<le> 90
                then char_of ((of_char c :: nat) + 32) else c)"

definition ToLower :: "string \<Rightarrow> string" where
  "ToLower s = map toLower s"

definition isDigit :: "char \<Rightarrow> bool" where
  "isDigit c = (48 \<le> (of_char c :: nat) \<and> (of_char c :: nat) \<le> 57)"

text \<open>The decimal rendering of \<open>%d\<close>.\<close>

fun show_nat :: "nat \<Rightarrow> string" where
  "show_nat n = (if n < 10 then [char_of (48 + n)]
                 else show_nat (n div 10) @ [char_of (48 + n mod 10)])"

declare show_nat.simps [simp del]

definition show_int :: "int \<Rightarrow> string" where
  "show_int i = (if i < 0 then CHR ''-'' # show_nat (nat (- i)) else show_nat (nat i))"

text \<open>
  The value of a string of decimal digits, and \<open>strconv.Atoi\<close> and
  \<open>strconv.ParseInt(s, 10, 64)\<close> on top of it: an optional sign, at least one digit,
  nothing else, and a value that fits a signed 64-bit integer; \<open>None\<close> is a non-nil error.
\<close>

definition digits_value :: "string \<Rightarrow> int" where
  "digits_value s = foldl (\<lambda>a c. 10 * a + ((of_char c :: int) - 48)) 0 s"

definition ParseInt64 :: "string \<Rightarrow> int option" where
  "ParseInt64 s =
     (let (neg, ds) = (case s of
                         c # r \<Rightarrow> if c = CHR ''-'' then (True, r)
                                  else if c = CHR ''+'' then (False, r) else (False, s)
                       | [] \<Rightarrow> (False, s))
      in if ds = [] \<or> \<not> list_all isDigit ds then None
         else (let v = (if neg then - digits_value ds else digits_value ds)
               in if - (2 ^ 63) \<le> v \<and> v < 2 ^ 63 then Some v else None))"

definition Atoi :: "string \<Rightarrow> int option" where
  "Atoi s = ParseInt64 s"

text \<open>Two's complement wrap-around of a signed 64-bit result.\<close>

definition wrap64 :: "int \<Rightarrow> int" where
  "wrap64 x = (x + 2 ^ 63) mod 2 ^ 64 - 2 ^ 63"

section \<open>The watched resource and the diagnostic\<close>

text \<open>
  \<open>handleResult\<close> and the update callback read seven string fields of the unstructured
  object with \<open>unstructured.NestedString\<close>, ignoring the found flag and the error, so a
  missing or non-string field reads as the empty string. The record holds these reads.
\<close>

record k8s_object =
  meta_uid :: string
  meta_name :: string
  meta_namespace :: string
  meta_resourceVersion :: string
  spec_name :: string
  spec_kind :: string
  spec_details :: string

record diagnostic =
  diag_name :: string
  diag_kind :: string
  diag_namespace :: string
  diag_error :: string
  diag_solution :: string

record FileUpdate =
  Path :: string
  Content :: string

text \<open>The identity used by the dedup gate: the uid, or the name when the uid is empty.\<close>

definition resourceID :: "k8s_object \<Rightarrow> string" where
  "resourceID obj = (if meta_uid obj = [] then meta_name obj else meta_uid obj)"

text \<open>
  The part of \<open>handleResult\<close> between the dedup gate and the source fetch: it fills the
  diagnostic from the object. A Go struct starts with every field empty.
\<close>

definition parseNamespace :: "k8s_object \<Rightarrow> string \<times> string" where
  "parseNamespace obj =
     (let resourceName = spec_name obj in
      if resourceName \<noteq> [] \<and> Contains resourceName ''/'' then
        (let parts = SplitN resourceName ''/'' 2 in
         if length parts = 2 then (parts ! 0, parts ! 1)
         else (''default'', resourceName))
      else
        (let ns = meta_namespace obj in
         (if ns = [] then ''default'' else ns, resourceName)))"

definition extractDiagnostic :: "k8s_object \<Rightarrow> diagnostic" where
  "extractDiagnostic obj =
     (let (ns, nm) = parseNamespace obj;
          parts = SplitN (spec_details obj) ''\<newline>\<newline>'' 2
      in \<lparr> diag_name = nm,
           diag_kind = spec_kind obj,
           diag_namespace = ns,
           diag_error = (if length parts \<ge> 1 then TrimPrefix (parts ! 0) ''Error: '' else []),
           diag_solution = (if length parts \<ge> 2 then TrimPrefix (parts ! 1) ''Solution: '' else []) \<rparr>)"

section \<open>The event router and the dedup gate\<close>

text \<open>
  The informer calls \<open>AddFunc\<close> and \<open>UpdateFunc\<close>; each call of \<open>handleResult\<close> is a
  handler that runs through the program points below. Handlers interleave freely: one
  transition of the controller is one step of one handler, or the delivery of an event.
  The mutex is a lock bit: \<open>Lock\<close> is enabled only when the bit is clear.

  \<^item> \<open>AtLock\<close>: before \<open>processedMutex.Lock()\<close>;
  \<^item> \<open>AtCheck\<close>: holding the mutex, before reading \<open>processedResources[resourceID]\<close>;
  \<^item> \<open>AtSkipUnlock\<close>: the entry was found set, before \<open>Unlock\<close> and \<open>return\<close>;
  \<^item> \<open>AtMark\<close>: before the write \<open>processedResources[resourceID] = true\<close>;
  \<^item> \<open>AtUnlock\<close>: the entry is written, before \<open>Unlock\<close>;
  \<^item> \<open>AtPipeline\<close>: the mutex is released, before the diagnostic is built and
    \<open>fetchGitHubFiles\<close> is called;
  \<^item> \<open>Finished oc\<close>: the pipeline has run and \<open>handleResult\<close> has returned with \<open>oc\<close>;
  \<^item> \<open>Skipped\<close>: \<open>handleResult\<close> has returned at the gate.
\<close>

datatype outcome =
    FetchFailed | NoFilesFound | AIEndpointFailed | NoFileUpdates | PublishFailed | PullRequestSent

datatype pc =
    AtLock | AtCheck | AtSkipUnlock | AtMark | AtUnlock | AtPipeline | Finished outcome | Skipped

record handler =
  h_obj :: k8s_object
  h_pc :: pc

text \<open>
  \<open>pipelineRuns\<close> is the log of pipeline executions: the identity of a handler is
  appended when its pipeline runs.
\<close>

record controller =
  processedResources :: "string \<rightharpoonup> bool"
  processedMutex :: bool
  handlers :: "handler list"
  pipelineRuns :: "string list"

datatype event = AddEvent k8s_object | UpdateEvent k8s_object k8s_object

definition initial :: controller where
  "initial = \<lparr> processedResources = Map.empty, processedMutex = False,
               handlers = [], pipelineRuns = [] \<rparr>"

definition handleResult :: "k8s_object \<Rightarrow> controller \<Rightarrow> controller" where
  "handleResult obj s = s\<lparr>handlers := handlers s @ [\<lparr>h_obj = obj, h_pc = AtLock\<rparr>]\<rparr>"

text \<open>The two callbacks registered in \<open>main\<close>.\<close>

fun deliver :: "event \<Rightarrow> controller \<Rightarrow> controller" where
  "deliver (AddEvent obj) s = handleResult obj s"
| "deliver (UpdateEvent oldObj newObj) s =
     (if meta_resourceVersion oldObj \<noteq> meta_resourceVersion newObj
      then handleResult newObj s else s)"

definition goto :: "nat \<Rightarrow> pc \<Rightarrow> controller \<Rightarrow> controller" where
  "goto i p s = s\<lparr>handlers := (handlers s)[i := (handlers s ! i)\<lparr>h_pc := p\<rparr>]\<rparr>"

definition hid :: "controller \<Rightarrow> nat \<Rightarrow> string" where
  "hid s i = resourceID (h_obj (handlers s ! i))"

definition pcs :: "controller \<Rightarrow> nat \<Rightarrow> pc" where
  "pcs s i = h_pc (handlers s ! i)"

text \<open>
  One step of handler \<open>i\<close>; \<open>None\<close> when the handler does not exist, is blocked on the
  mutex or has returned. The outcome \<open>oc\<close> of the pipeline is chosen by the environment
  (the source host, the inference endpoint and the publishing service).
\<close>

definition handler_step :: "outcome \<Rightarrow> nat \<Rightarrow> controller \<Rightarrow> controller option" where
  "handler_step oc i s =
     (if i \<ge> length (handlers s) then None
      else case h_pc (handlers s ! i) of
        AtLock \<Rightarrow>
          if processedMutex s then None
          else Some (goto i AtCheck (s\<lparr>processedMutex := True\<rparr>))
      | AtCheck \<Rightarrow>
          (case processedResources s (hid s i) of
             Some True \<Rightarrow> Some (goto i AtSkipUnlock s)
           | _ \<Rightarrow> Some (goto i AtMark s))
      | AtSkipUnlock \<Rightarrow> Some (goto i Skipped (s\<lparr>processedMutex := False\<rparr>))
      | AtMark \<Rightarrow>
          Some (goto i AtUnlock
                  (s\<lparr>processedResources := (processedResources s)(hid s i \<mapsto> True)\<rparr>))
      | AtUnlock \<Rightarrow> Some (goto i AtPipeline (s\<lparr>processedMutex := False\<rparr>))
      | AtPipeline \<Rightarrow>
          Some (goto i (Finished oc) (s\<lparr>pipelineRuns := pipelineRuns s @ [hid s i]\<rparr>))
      | Finished _ \<Rightarrow> None
      | Skipped \<Rightarrow> None)"

inductive transition :: "controller \<Rightarrow> controller \<Rightarrow> bool" where
  delivered: "transition s (deliver e s)"
| stepped: "handler_step oc i s = Some s' \<Longrightarrow> transition s s'"

definition reachable :: "controller \<Rightarrow> bool" where
  "reachable s = transition\<^sup>*\<^sup>* initial s"

text \<open>A schedule is a list of actions; \<open>exec\<close> runs it, for concrete executions.\<close>

datatype action = Deliver event | Step nat outcome

fun exec :: "action list \<Rightarrow> controller \<Rightarrow> controller option" where
  "exec [] s = Some s"
| "exec (Deliver e # as) s = exec as (deliver e s)"
| "exec (Step i oc # as) s =
     (case handler_step oc i s of None \<Rightarrow> None | Some s' \<Rightarrow> exec as s')"

text \<open>Program points inside the critical section, past the check, and past the gate.\<close>

fun in_cs :: "pc \<Rightarrow> bool" where
  "in_cs AtCheck = True"
| "in_cs AtSkipUnlock = True"
| "in_cs AtMark = True"
| "in_cs AtUnlock = True"
| "in_cs _ = False"

fun passed :: "pc \<Rightarrow> bool" where
  "passed AtUnlock = True"
| "passed AtPipeline = True"
| "passed (Finished _) = True"
| "passed _ = False"

fun past_check :: "pc \<Rightarrow> bool" where
  "past_check AtMark = True"
| "past_check p = passed p"

fun is_finished :: "pc \<Rightarrow> bool" where
  "is_finished (Finished _) = True"
| "is_finished _ = False"

definition cs_set :: "controller \<Rightarrow> nat set" where
  "cs_set s = {i. i < length (handlers s) \<and> in_cs (pcs s i)}"

definition mutex_inv :: "controller \<Rightarrow> bool" where
  "mutex_inv s \<longleftrightarrow>
     (processedMutex s \<longleftrightarrow> cs_set s \<noteq> {}) \<and>
     (\<forall>i < length (handlers s). \<forall>j < length (handlers s).
         in_cs (pcs s i) \<and> in_cs (pcs s j) \<longrightarrow> i = j) \<and>
     (\<forall>i < length (handlers s).
         passed (pcs s i) \<longrightarrow> processedResources s (hid s i) = Some True) \<and>
     (\<forall>i < length (handlers s).
         pcs s i = AtMark \<longrightarrow> processedResources s (hid s i) \<noteq> Some True) \<and>
     (\<forall>i < length (handlers s). \<forall>j < length (handlers s).
         passed (pcs s i) \<and> passed (pcs s j) \<and> hid s i = hid s j \<longrightarrow> i = j)"

definition runs_inv :: "controller \<Rightarrow> bool" where
  "runs_inv s \<longleftrightarrow>
     distinct (pipelineRuns s) \<and>
     (\<forall>r. r \<in> set (pipelineRuns s) \<longleftrightarrow>
          (\<exists>i < length (handlers s). is_finished (pcs s i) \<and> hid s i = r))"

definition gate_inv :: "controller \<Rightarrow> bool" where
  "gate_inv s \<longleftrightarrow> mutex_inv s \<and> runs_inv s"

text \<open>What a run keeps: the entries of the map and the handlers that returned.\<close>

definition keeps :: "controller \<Rightarrow> controller \<Rightarrow> bool" where
  "keeps s s' \<longleftrightarrow>
     length (handlers s) \<le> length (handlers s') \<and>
     (\<forall>r. processedResources s r = Some True \<longrightarrow> processedResources s' r = Some True) \<and>
     (\<forall>i < length (handlers s). hid s' i = hid s i) \<and>
     (\<forall>i < length (handlers s). is_finished (pcs s i) \<longrightarrow> pcs s' i = pcs s i)"

section \<open>The local fallback heuristic\<close>

definition isOOM :: "string \<Rightarrow> bool" where
  "isOOM solution =
     (Contains (ToLower solution) ''oomkilled'' \<or> Contains (ToLower solution) ''out of memory'')"

definition extractIndentation :: "string \<Rightarrow> string" where
  "extractIndentation line = takeWhile (\<lambda>c. c = CHR '' '' \<or> c = CHR 0x09) line"

text \<open>
  The loop of \<open>updateMemoryLimits\<close> over the lines, with its two flags. Every branch
  that ends in \<open>continue\<close> keeps the line; only the last test rewrites it.
\<close>

fun updateLines :: "bool \<Rightarrow> bool \<Rightarrow> string \<Rightarrow> string list \<Rightarrow> string list" where
  "updateLines inResources inLimits newLimit [] = []"
| "updateLines inResources inLimits newLimit (line # rest) =
     (let trimmedLine = TrimSpace line in
      if HasPrefix trimmedLine ''resources:'' then
        line # updateLines True inLimits newLimit rest
      else if inResources \<and> \<not> HasPrefix line '' '' \<and> \<not> HasPrefix line [CHR 0x09]
              \<and> trimmedLine \<noteq> [] then
        line # updateLines False False newLimit rest
      else if inResources \<and> HasPrefix trimmedLine ''limits:'' then
        line # updateLines inResources True newLimit rest
      else if inLimits \<and> HasPrefix trimmedLine ''requests:'' then
        line # updateLines inResources False newLimit rest
      else if inLimits \<and> HasPrefix trimmedLine ''memory:'' then
        (extractIndentation line @ ''memory: '' @ newLimit)
          # updateLines inResources inLimits newLimit rest
      else line # updateLines inResources inLimits newLimit rest)"

definition updateMemoryLimits :: "string \<Rightarrow> string \<Rightarrow> string" where
  "updateMemoryLimits content newLimit =
     Join (updateLines False False newLimit (Split content CHR ''\<newline>'')) CHR ''\<newline>''"

text \<open>The deployment name: the rest of the line after the first \<open>name:\<close>.\<close>

definition deploymentNameOf :: "string \<Rightarrow> string" where
  "deploymentNameOf content =
     (case Index content ''name:'' of
        None \<Rightarrow> []
      | Some idx \<Rightarrow>
          (let subContent = drop (idx + 5) content in
           case Index subContent ''\<newline>'' of
             None \<Rightarrow> []
           | Some endIdx \<Rightarrow> if endIdx > 0 then TrimSpace (take endIdx subContent) else []))"

text \<open>
  The memory limit: the rest of the line after the first \<open>memory:\<close> that follows the
  first \<open>limits:\<close>, provided the text contains \<open>resources\<close>.
\<close>

definition memoryLimitOf :: "string \<Rightarrow> string" where
  "memoryLimitOf content =
     (if Contains content ''resources'' then
        (case Index content ''limits:'' of
           None \<Rightarrow> []
         | Some idx \<Rightarrow>
             (let subContent = drop idx content in
              case Index subContent ''memory:'' of
                None \<Rightarrow> []
              | Some memIdx \<Rightarrow>
                  (case Index (drop (memIdx + 7) subContent) ''\<newline>'' of
                     None \<Rightarrow> []
                   | Some endIdx \<Rightarrow>
                       if endIdx > 0
                       then TrimSpace (take endIdx (drop (memIdx + 7) subContent))
                       else [])))
      else [])"

text \<open>
  Parsing values like \<open>6Mi\<close>: the leading digits and the rest. When \<open>Atoi\<close> fails (no
  digit, or a number beyond 64 bits) both \<open>currentMem\<close> and \<open>unit\<close> keep their zero values.
\<close>

definition parseMemory :: "string \<Rightarrow> int \<times> string" where
  "parseMemory memoryLimit =
     (if memoryLimit \<noteq> [] then
        (let numPart = takeWhile isDigit memoryLimit;
             unitPart = dropWhile isDigit memoryLimit
         in case Atoi numPart of
              Some num \<Rightarrow> (num, unitPart)
            | None \<Rightarrow> (0, []))
      else (0, []))"

text \<open>
  Go computes \<open>int(float64(currentMem) * 1.5)\<close>. For \<open>0 \<le> currentMem < 2^51\<close> the
  conversion is exact, the product is below \<open>2^52\<close> and a multiple of one half, hence
  exact in binary64, and the truncation is the integer quotient below; the model is the
  code on that range.
\<close>

definition scaleMemory :: "int \<Rightarrow> int" where
  "scaleMemory currentMem = (3 * currentMem) div 2"

definition newLimitFor :: "string \<Rightarrow> string" where
  "newLimitFor memoryLimit =
     (let (currentMem, unit) = parseMemory memoryLimit in
      if currentMem = 0 \<or> currentMem < 64 then ''256Mi''
      else show_int (scaleMemory currentMem) @ unit)"

text \<open>The body of the loop over the files, for one file.\<close>

definition fileFallback :: "string \<times> string \<Rightarrow> FileUpdate list" where
  "fileFallback nc =
     (let name = fst nc; content = snd nc in
      if HasSuffix name ''.yaml'' \<or> HasSuffix name ''.yml'' then
        if Contains content ''kind: Deployment'' then
          (let deploymentName = deploymentNameOf content;
               memoryLimit = memoryLimitOf content
           in if deploymentName \<noteq> [] then
                (let updatedContent = updateMemoryLimits content (newLimitFor memoryLimit)
                 in if updatedContent \<noteq> content
                    then [\<lparr>Path = name, Content = updatedContent\<rparr>]
                    else [])
              else [])
        else []
      else [])"

text \<open>
  \<open>files\<close> is a Go map; the list gives its entries in the order in which the \<open>range\<close>
  loop visits them.
\<close>

definition generateLocalFallbackResponse :: "string \<Rightarrow> (string \<times> string) list \<Rightarrow> FileUpdate list" where
  "generateLocalFallbackResponse solution files =
     (if \<not> isOOM solution then [] else concat (map fileFallback files))"

text \<open>
  The loop of \<open>updateMemoryLimits\<close> read line by line: what a rewritten line is,
  whether the loop rewrites a line under given flags, and the flags after the line.
\<close>

definition rewritten :: "string \<Rightarrow> string \<Rightarrow> string" where
  "rewritten line n = extractIndentation line @ ''memory: '' @ n"

definition rewritesLine :: "bool \<Rightarrow> bool \<Rightarrow> string \<Rightarrow> bool" where
  "rewritesLine r l line =
     (let t = TrimSpace line in
      \<not> HasPrefix t ''resources:'' \<and>
      \<not> (r \<and> \<not> HasPrefix line '' '' \<and> \<not> HasPrefix line [CHR 0x09] \<and> t \<noteq> []) \<and>
      \<not> (r \<and> HasPrefix t ''limits:'') \<and>
      \<not> (l \<and> HasPrefix t ''requests:'') \<and>
      l \<and> HasPrefix t ''memory:'')"

definition flagsAfter :: "bool \<Rightarrow> bool \<Rightarrow> string \<Rightarrow> bool \<times> bool" where
  "flagsAfter r l line =
     (let t = TrimSpace line in
      if HasPrefix t ''resources:'' then (True, l)
      else if r \<and> \<not> HasPrefix line '' '' \<and> \<not> HasPrefix line [CHR 0x09] \<and> t \<noteq> [] then (False, False)
      else if r \<and> HasPrefix t ''limits:'' then (r, True)
      else if l \<and> HasPrefix t ''requests:'' then (r, False)
      else (r, l))"

section \<open>Configuration\<close>

text \<open>The package-level configuration variables, read from the environment at start-up.\<close>

record config =
  githubOwner :: string
  githubRepo :: string
  githubBranch :: string
  githubToken :: string
  aiBaseUrl :: string
  aiModel :: string
  aiTimeoutSecs :: int
  aiMaxRetries :: int
  aiHealthCheck :: bool
  useFallback :: bool
  ghServiceUrl :: string

text \<open>Durations are nanoseconds, as \<open>time.Duration\<close>.\<close>

definition Second :: int where
  "Second = 1000000000"

definition Minute :: int where
  "Minute = 60 * Second"

section \<open>Fetching one file, with the rate-limit retry\<close>

record gh_response =
  gh_status :: int
  gh_rate_remaining :: string
  gh_rate_reset :: string
  gh_body :: string

datatype gh_attempt = DoFailed string | Got gh_response

text \<open>
  The environment of \<open>fetchFileContent\<close>: whether the request can be built, what the
  \<open>i\<close>-th call of \<open>httpClient.Do\<close> returns, what \<open>time.Now()\<close> reads (nanoseconds since
  the Unix epoch) while the \<open>i\<close>-th response is handled, and the two decoders of the
  standard library (JSON into \<open>Content\<close> and \<open>Encoding\<close>, and base64).
\<close>

record fetch_env =
  fe_newRequestErr :: "string option"
  fe_attempt :: "nat \<Rightarrow> gh_attempt"
  fe_clock :: "nat \<Rightarrow> int"
  fe_jsonDecode :: "string \<Rightarrow> string + string \<times> string"
  fe_base64 :: "string \<Rightarrow> string + string"

text \<open>
  \<open>time.Until(time.Unix(resetTime, 0))\<close>: the seconds are shifted to the internal epoch
  in 64 bits, and the difference saturates at the bounds of \<open>time.Duration\<close>.
\<close>

definition untilReset :: "int \<Rightarrow> int \<Rightarrow> int" where
  "untilReset resetTime now =
     (let t = wrap64 (resetTime + 62135596800) - 62135596800;
          d = t * Second - now
      in max (- (2 ^ 63)) (min (2 ^ 63 - 1) d))"

definition rateLimited :: "gh_response \<Rightarrow> bool" where
  "rateLimited resp = (gh_status resp = 403 \<and> gh_rate_remaining resp = ''0'')"

text \<open>What the \<open>i\<close>-th iteration sleeps after a rate-limited response.\<close>

definition rateLimitSleep :: "gh_response \<Rightarrow> int \<Rightarrow> nat \<Rightarrow> int" where
  "rateLimitSleep resp now i =
     (let backoff = 2 ^ i * Second in
      if gh_rate_reset resp \<noteq> [] then
        (case ParseInt64 (gh_rate_reset resp) of
           Some resetTime \<Rightarrow>
             (let waitTime = untilReset resetTime now in
              if waitTime > 0 \<and> waitTime < 5 * Minute then waitTime + Second else backoff)
         | None \<Rightarrow> backoff)
      else backoff)"

text \<open>
  The retry loop from iteration \<open>i\<close> with \<open>n\<close> iterations left. It returns the sleeps
  and either the error of \<open>Do\<close> or the last response, with a flag telling that the body
  of that response was closed inside the loop.
\<close>

fun retryLoop ::
  "fetch_env \<Rightarrow> nat \<Rightarrow> nat \<Rightarrow> (gh_response \<times> bool) option
     \<Rightarrow> int list \<times> (string + (gh_response \<times> bool) option)" where
  "retryLoop env i 0 lastResp = ([], Inr lastResp)"
| "retryLoop env i (Suc n) lastResp =
     (case fe_attempt env i of
        DoFailed e \<Rightarrow> ([], Inl (''error fetching file content: '' @ e))
      | Got resp \<Rightarrow>
          if rateLimited resp then
            (let r = retryLoop env (Suc i) n (Some (resp, True))
             in (rateLimitSleep resp (fe_clock env i) i # fst r, snd r))
          else ([], Inr (Some (resp, False))))"

definition maxRetries :: nat where
  "maxRetries = 3"

text \<open>
  The code after the loop: the status test, the JSON decoding and the base64 decoding.
  Reading a body that was closed inside the loop yields no bytes. The loop runs at least
  once, so the response is never nil there; the model keeps the case apart.
\<close>

definition readFile :: "fetch_env \<Rightarrow> (gh_response \<times> bool) option \<Rightarrow> string + string" where
  "readFile env lastResp =
     (case lastResp of
        None \<Rightarrow> Inl ''panic: nil response''
      | Some (resp, closed) \<Rightarrow>
          if gh_status resp \<noteq> 200 then
            Inl (''GitHub API error (status '' @ show_int (gh_status resp) @ ''): ''
                 @ (if closed then [] else gh_body resp))
          else
            (case fe_jsonDecode env (gh_body resp) of
               Inl e \<Rightarrow> Inl (''error decoding file content: '' @ e)
             | Inr (content, encoding) \<Rightarrow>
                 if content \<noteq> [] \<and> encoding = ''base64'' then
                   (case fe_base64 env (filter (\<lambda>c. c \<noteq> CHR ''\<newline>'') content) of
                      Inl e \<Rightarrow> Inl (''error decoding base64 content: '' @ e)
                    | Inr decoded \<Rightarrow> Inr decoded)
                 else Inl ''file content not available''))"

text \<open>\<open>fetchFileContent\<close> returns the sleeps it made and the error text or the content.\<close>

definition fetchFileContent :: "fetch_env \<Rightarrow> int list \<times> (string + string)" where
  "fetchFileContent env =
     (case fe_newRequestErr env of
        Some e \<Rightarrow> ([], Inl (''error creating request: '' @ e))
      | None \<Rightarrow>
          (let r = retryLoop env 0 maxRetries None in
           (fst r, case snd r of Inl e \<Rightarrow> Inl e | Inr lastResp \<Rightarrow> readFile env lastResp)))"

section \<open>The inference endpoint\<close>

text \<open>
  One exchange with the endpoint: the request cannot be built, \<open>Do\<close> fails (with the
  flag of \<open>errors.Is(err, context.DeadlineExceeded)\<close>, the printed duration and the error
  text), or a response arrives with its status and body.
\<close>

datatype ai_exchange =
    NewRequestFailed string
  | SendFailed bool string string
  | Responded int string

text \<open>
  The environment of \<open>sendToAIEndpoint\<close>: what \<open>checkAIEndpointHealth\<close> returns, the
  exchange of each attempt, the JSON decoder of the response (\<open>None\<close> is the nil map of a
  JSON \<open>null\<close>) and \<open>extractFileUpdatesFromResponse\<close>.
\<close>

record 'r ai_env =
  ae_healthy :: bool
  ae_exchange :: "nat \<Rightarrow> ai_exchange"
  ae_decode :: "string \<Rightarrow> string + 'r option"
  ae_extract :: "'r \<Rightarrow> string + FileUpdate list"

definition tryAIEndpoint :: "(string \<Rightarrow> string + 'r option) \<Rightarrow> ai_exchange \<Rightarrow> string + 'r option" where
  "tryAIEndpoint decode x =
     (case x of
        NewRequestFailed e \<Rightarrow> Inl (''failed to create HTTP request: '' @ e)
      | SendFailed deadline dur e \<Rightarrow>
          if deadline \<or> Contains e ''timeout'' \<or> Contains e ''deadline''
          then Inl (''request timed out after '' @ dur @ '': '' @ e)
          else Inl (''failed to send HTTP request: '' @ e)
      | Responded statusCode body \<Rightarrow>
          if statusCode < 200 \<or> statusCode \<ge> 300
          then Inl (''received non-success status code '' @ show_int statusCode @ '': '' @ body)
          else (case decode body of
                  Inl e \<Rightarrow> Inl (''failed to parse response: '' @ e)
                | Inr responseData \<Rightarrow> Inr responseData))"

text \<open>The test that ends the retries: it looks at the text of the error.\<close>

definition nonRetryable :: "string \<Rightarrow> bool" where
  "nonRetryable err =
     (Contains err ''received non-success status code'' \<and>
      \<not> Contains err ''429'' \<and> \<not> Contains err ''500'' \<and> \<not> Contains err ''502'' \<and>
      \<not> Contains err ''503'' \<and> \<not> Contains err ''504'')"

text \<open>\<open>time.Duration(1<<uint(attempt)) * time.Second\<close> in 64 bits, capped at 30 seconds.\<close>

definition backoffTime :: "nat \<Rightarrow> int" where
  "backoffTime attempt =
     (let b = wrap64 (2 ^ attempt * Second) in
      if b > 30 * Second then 30 * Second else b)"

datatype 'r loop_result = GotResponse "'r option" | NonRetryableError | AllAttemptsFailed

text \<open>
  The retry loop from \<open>attempt\<close> with \<open>n\<close> iterations left: the number of calls of
  \<open>tryAIEndpoint\<close>, the sleeps, and how the loop ended.
\<close>

fun aiLoop :: "'r ai_env \<Rightarrow> nat \<Rightarrow> nat \<Rightarrow> nat \<times> int list \<times> 'r loop_result" where
  "aiLoop env attempt 0 = (0, [], AllAttemptsFailed)"
| "aiLoop env attempt (Suc n) =
     (let slept = (if attempt > 0 then [backoffTime attempt] else []) in
      case tryAIEndpoint (ae_decode env) (ae_exchange env attempt) of
        Inr resp \<Rightarrow> (1, slept, GotResponse resp)
      | Inl err \<Rightarrow>
          if nonRetryable err then (1, slept, NonRetryableError)
          else (let r = aiLoop env (Suc attempt) n
                in (Suc (fst r), slept @ fst (snd r), snd (snd r))))"

text \<open>
  The error of attempt \<open>k\<close>, if any, and whether the loop goes on after it: the attempt
  failed and the test that ends the retries does not hold of its error.
\<close>

definition attemptResult :: "'r ai_env \<Rightarrow> nat \<Rightarrow> string + 'r option" where
  "attemptResult env k = tryAIEndpoint (ae_decode env) (ae_exchange env k)"

definition retryableFailure :: "'r ai_env \<Rightarrow> nat \<Rightarrow> bool" where
  "retryableFailure env k =
     (case attemptResult env k of Inl err \<Rightarrow> \<not> nonRetryable err | Inr resp \<Rightarrow> False)"

definition retryableStatuses :: "string list" where
  "retryableStatuses = [''429'', ''500'', ''502'', ''503'', ''504'']"

text \<open>
  \<open>sendToAIEndpoint\<close> returns the updates; the model also returns the number of calls of
  \<open>tryAIEndpoint\<close>, the sleeps, and whether the updates are those of the local fallback.
  Its only error return follows \<open>json.Marshal\<close> of the request, which cannot fail on a
  payload of strings, numbers and a boolean, so the model has no error result.
\<close>

record ai_result =
  ai_calls :: nat
  ai_sleeps :: "int list"
  ai_fallback :: bool
  ai_updates :: "FileUpdate list"

definition sendToAIEndpoint ::
  "config \<Rightarrow> 'r ai_env \<Rightarrow> (string \<times> string) list \<Rightarrow> string \<Rightarrow> ai_result" where
  "sendToAIEndpoint cfg env files solution =
     (if aiHealthCheck cfg \<and> \<not> ae_healthy env then
        \<lparr>ai_calls = 0, ai_sleeps = [], ai_fallback = True,
         ai_updates = generateLocalFallbackResponse solution files\<rparr>
      else
        (let r = aiLoop env 0 (nat (aiMaxRetries cfg));
             calls = fst r; slept = fst (snd r);
             fallback = \<lparr>ai_calls = calls, ai_sleeps = slept, ai_fallback = True,
                         ai_updates = generateLocalFallbackResponse solution files\<rparr>
         in case snd (snd r) of
              NonRetryableError \<Rightarrow> fallback
            | AllAttemptsFailed \<Rightarrow> fallback
            | GotResponse None \<Rightarrow> fallback
            | GotResponse (Some responseData) \<Rightarrow>
                (case ae_extract env responseData of
                   Inl e \<Rightarrow> fallback
                 | Inr fileUpdates \<Rightarrow>
                     \<lparr>ai_calls = calls, ai_sleeps = slept, ai_fallback = False,
                      ai_updates = fileUpdates\<rparr>)))"

section \<open>The publisher\<close>

record pr_request =
  pr_owner :: string
  pr_repo :: string
  pr_title :: string
  pr_body :: string
  pr_files :: "(string \<times> string) list"

text \<open>
  One exchange with the publishing service: the request cannot be built, \<open>Do\<close> fails,
  or a response arrives with its status and the result of reading its body.
\<close>

datatype gh_exchange =
    PRRequestFailed string
  | PRSendFailed string
  | PRResponded int "string + string"

definition qualifyPath :: "string \<Rightarrow> string \<Rightarrow> string" where
  "qualifyPath namespace path =
     (if \<not> HasPrefix path (''apps/'' @ namespace @ ''/'')
      then ''apps/'' @ namespace @ ''/'' @ path else path)"

definition buildPRPayload :: "config \<Rightarrow> FileUpdate list \<Rightarrow> diagnostic \<Rightarrow> pr_request" where
  "buildPRPayload cfg fileUpdates diag =
     \<lparr> pr_owner = githubOwner cfg,
       pr_repo = githubRepo cfg,
       pr_title = ''fix: Fixed '' @ diag_name diag @ '' issue in namespace '' @ diag_namespace diag,
       pr_body = ''This PR fixes an issue detected by K8sGPT for '' @ diag_kind diag @ ''/''
                 @ diag_name diag @ '' in namespace '' @ diag_namespace diag @ ''. ''
                 @ [CHR 0xEF, CHR 0xA3, CHR 0xBF, CHR 0xC3, CHR 0xBC, CHR 0xC3, CHR 0xA5,
                    CHR 0xC2, CHR 0xAA] @ ''\<newline>\<newline>''
                 @ ''**Error:** '' @ diag_error diag @ ''\<newline>\<newline>''
                 @ ''**Solution:** '' @ diag_solution diag @ ''\<newline>\<newline>''
                 @ ''Changes were automatically generated by Prof Tournesol.'',
       pr_files = map (\<lambda>u. (qualifyPath (diag_namespace diag) (Path u), Content u)) fileUpdates \<rparr>"

text \<open>The returned Go error is its text; \<open>None\<close> is \<open>nil\<close>.\<close>

definition sendToGHService ::
  "config \<Rightarrow> (pr_request \<Rightarrow> gh_exchange) \<Rightarrow> FileUpdate list \<Rightarrow> diagnostic \<Rightarrow> string option" where
  "sendToGHService cfg service fileUpdates diag =
     (case service (buildPRPayload cfg fileUpdates diag) of
        PRRequestFailed e \<Rightarrow> Some (''failed to create request: '' @ e)
      | PRSendFailed e \<Rightarrow> Some (''failed to send request to gh-service: '' @ e)
      | PRResponded statusCode body \<Rightarrow>
          (case body of
             Inl e \<Rightarrow> Some (''failed to read response body: '' @ e)
           | Inr respBody \<Rightarrow>
               if statusCode \<ge> 400
               then Some (''gh-service returned error status '' @ show_int statusCode
                          @ '': '' @ respBody)
               else None))"

section \<open>The pipeline of one diagnostic\<close>

text \<open>
  The part of \<open>handleResult\<close> after the dedup gate. \<open>fetchGitHubFiles\<close> is taken from
  the environment: the error text or the files of the namespace.
\<close>

record 'r pipeline_env =
  pe_fetch :: "string \<Rightarrow> string + (string \<times> string) list"
  pe_ai :: "'r ai_env"
  pe_publish :: "pr_request \<Rightarrow> gh_exchange"

definition processResult :: "config \<Rightarrow> 'r pipeline_env \<Rightarrow> k8s_object \<Rightarrow> outcome" where
  "processResult cfg env obj =
     (let diag = extractDiagnostic obj in
      case pe_fetch env (diag_namespace diag) of
        Inl e \<Rightarrow> FetchFailed
      | Inr files \<Rightarrow>
          if length files = 0 then NoFilesFound
          else (let fileUpdates = ai_updates (sendToAIEndpoint cfg (pe_ai env) files (diag_solution diag))
                in if length fileUpdates > 0 then
                     (case sendToGHService cfg (pe_publish env) fileUpdates diag of
                        Some e \<Rightarrow> PublishFailed
                      | None \<Rightarrow> PullRequestSent)
                   else NoFileUpdates))"

section \<open>Concrete inputs\<close>

text \<open>A diagnostic resource as the cluster analysis tool writes it, and schedules over it.\<close>

definition result_obj :: k8s_object where
  "result_obj = \<lparr> meta_uid = ''uid-1'', meta_name = ''nginxunstablenginxoom'',
                  meta_namespace = ''k8sgpt-operator-system'', meta_resourceVersion = ''41'',
                  spec_name = ''nginx-unstable/nginx-oom-7445cfcc57-mh8s7'', spec_kind = ''Pod'',
                  spec_details = ''Error: OOMKilled\<newline>\<newline>Solution: raise the memory limit'' \<rparr>"

text \<open>
  Five add-events for the same identity are delivered before any handler moves; the
  first handler passes the gate, the other four arrive at the gate while the first
  still runs, and the pipeline of the first ends with a failed fetch.
\<close>

definition five_adds :: "action list" where
  "five_adds =
     replicate 5 (Deliver (AddEvent result_obj)) @
     [Step 0 FetchFailed, Step 0 FetchFailed, Step 0 FetchFailed, Step 0 FetchFailed,
      Step 1 FetchFailed, Step 1 FetchFailed, Step 1 FetchFailed,
      Step 2 FetchFailed, Step 2 FetchFailed, Step 2 FetchFailed,
      Step 0 FetchFailed,
      Step 3 FetchFailed, Step 3 FetchFailed, Step 3 FetchFailed,
      Step 4 FetchFailed, Step 4 FetchFailed, Step 4 FetchFailed]"

text \<open>One add-event whose pipeline fails, and a later update with a new resource version.\<close>

definition failed_run :: "action list" where
  "failed_run =
     [Deliver (AddEvent result_obj),
      Step 0 NoFilesFound, Step 0 NoFilesFound, Step 0 NoFilesFound, Step 0 NoFilesFound,
      Step 0 NoFilesFound]"

definition later_update :: "action list" where
  "later_update =
     [Deliver (UpdateEvent result_obj (result_obj\<lparr>meta_resourceVersion := ''42''\<rparr>)),
      Step 1 PullRequestSent, Step 1 PullRequestSent, Step 1 PullRequestSent]"

text \<open>The configuration when no environment variable is set.\<close>

definition default_config :: config where
  "default_config =
     \<lparr> githubOwner = ''mfernd'', githubRepo = ''prof-tournesol'', githubBranch = ''main'',
       githubToken = [], aiBaseUrl = ''http://kubeai.kubeai.svc.cluster.local:80/openai/v1'',
       aiModel = ''gemma3-1b-cpu'', aiTimeoutSecs = 60, aiMaxRetries = 3,
       aiHealthCheck = True, useFallback = True,
       ghServiceUrl = ''http://gh-service.tournesol:80'' \<rparr>"

definition one_update :: "FileUpdate list" where
  "one_update = [\<lparr>Path = ''deployment.yaml'', Content = ''kind: Deployment\<newline>''\<rparr>]"

text \<open>Three publishing services: one answers 304, one answers 500, one is unreachable.\<close>

definition not_modified_service :: "pr_request \<Rightarrow> gh_exchange" where
  "not_modified_service req = PRResponded 304 (Inr ''not modified'')"

definition failing_service :: "pr_request \<Rightarrow> gh_exchange" where
  "failing_service req = PRResponded 500 (Inr ''branch already exists'')"

definition unreachable_service :: "pr_request \<Rightarrow> gh_exchange" where
  "unreachable_service req = PRSendFailed ''dial tcp: connection refused''"

text \<open>A service whose answer has status 200 and a body that breaks off while it is read.\<close>

definition broken_body_service :: "pr_request \<Rightarrow> gh_exchange" where
  "broken_body_service req = PRResponded 200 (Inl ''unexpected EOF'')"

text \<open>Deployment manifests, a solution text that reports an out-of-memory kill.\<close>

definition deployment_128Mi :: string where
  "deployment_128Mi =
     ''kind: Deployment\<newline>metadata:\<newline>  name: web\<newline>spec:\<newline>  resources:\<newline>    limits:\<newline>      memory: 128Mi\<newline>''"

definition deployment_6Mi :: string where
  "deployment_6Mi =
     ''kind: Deployment\<newline>metadata:\<newline>  name: web\<newline>spec:\<newline>  resources:\<newline>    limits:\<newline>      memory: 6Mi\<newline>''"

definition deployment_no_memory :: string where
  "deployment_no_memory =
     ''kind: Deployment\<newline>metadata:\<newline>  name: web\<newline>spec:\<newline>  resources:\<newline>    limits:\<newline>      cpu: 500m\<newline>''"

text \<open>A manifest whose limits hold no memory entry, followed by a node selector.\<close>

definition deployment_node_selector :: string where
  "deployment_node_selector =
     ''kind: Deployment\<newline>metadata:\<newline>  name: web\<newline>spec:\<newline>  resources:\<newline>    limits:\<newline>      cpu: 500m\<newline>  nodeSelector:\<newline>    memory: high\<newline>''"

definition deployment_node_selector_256Mi :: string where
  "deployment_node_selector_256Mi =
     ''kind: Deployment\<newline>metadata:\<newline>  name: web\<newline>spec:\<newline>  resources:\<newline>    limits:\<newline>      cpu: 500m\<newline>  nodeSelector:\<newline>    memory: 256Mi\<newline>''"

definition oom_solution :: string where
  "oom_solution = ''The container was OOMKilled; raise the memory limit.''"

text \<open>An endpoint whose health check fails.\<close>

definition unhealthy_env :: "unit ai_env" where
  "unhealthy_env =
     \<lparr> ae_healthy = False,
       ae_exchange = (\<lambda>k. SendFailed False ''2ms'' ''connection refused''),
       ae_decode = (\<lambda>body. Inl ''unexpected end of JSON input''),
       ae_extract = (\<lambda>r. Inr []) \<rparr>"

text \<open>
  Three source hosts that answer every request with a rate-limit response: one announces a
  reset 299.5 seconds ahead, one a reset 30 seconds after the first request (the clock
  moves by 10 seconds per attempt), one sends no reset header.
\<close>

definition slow_reset_env :: fetch_env where
  "slow_reset_env =
     \<lparr> fe_newRequestErr = None,
       fe_attempt = (\<lambda>i. Got \<lparr>gh_status = 403, gh_rate_remaining = ''0'',
                                gh_rate_reset = ''1700000300'', gh_body = ''rate limit exceeded''\<rparr>),
       fe_clock = (\<lambda>i. 1700000000 * Second + 500000000),
       fe_jsonDecode = (\<lambda>body. Inl ''unexpected end of JSON input''),
       fe_base64 = (\<lambda>s. Inr s) \<rparr>"

definition near_reset_env :: fetch_env where
  "near_reset_env =
     \<lparr> fe_newRequestErr = None,
       fe_attempt = (\<lambda>i. Got \<lparr>gh_status = 403, gh_rate_remaining = ''0'',
                                gh_rate_reset = ''1700000030'', gh_body = ''rate limit exceeded''\<rparr>),
       fe_clock = (\<lambda>i. (1700000000 + 10 * int i) * Second),
       fe_jsonDecode = (\<lambda>body. Inl ''unexpected end of JSON input''),
       fe_base64 = (\<lambda>s. Inr s) \<rparr>"

definition no_hint_env :: fetch_env where
  "no_hint_env =
     \<lparr> fe_newRequestErr = None,
       fe_attempt = (\<lambda>i. Got \<lparr>gh_status = 403, gh_rate_remaining = ''0'',
                                gh_rate_reset = [], gh_body = ''rate limit exceeded''\<rparr>),
       fe_clock = (\<lambda>i. 1700000000 * Second),
       fe_jsonDecode = (\<lambda>body. Inl ''unexpected end of JSON input''),
       fe_base64 = (\<lambda>s. Inr s) \<rparr>"

text \<open>
  Three inference endpoints: one answers 200 with a body that is no JSON, one always
  answers 503, one answers 503 once and 404 afterwards.
\<close>

definition bad_json_env :: "unit ai_env" where
  "bad_json_env =
     \<lparr> ae_healthy = True,
       ae_exchange = (\<lambda>k. Responded 200 ''<html>busy</html>''),
       ae_decode = (\<lambda>body. Inl ''invalid character < looking for beginning of value''),
       ae_extract = (\<lambda>r. Inr []) \<rparr>"

definition busy_env :: "unit ai_env" where
  "busy_env =
     \<lparr> ae_healthy = True,
       ae_exchange = (\<lambda>k. Responded 503 ''busy''),
       ae_decode = (\<lambda>body. Inl ''unexpected end of JSON input''),
       ae_extract = (\<lambda>r. Inr []) \<rparr>"

definition flaky_env :: "unit ai_env" where
  "flaky_env =
     \<lparr> ae_healthy = True,
       ae_exchange = (\<lambda>k. if k = 0 then Responded 503 ''busy''
                           else Responded 404 ''model not found''),
       ae_decode = (\<lambda>body. Inl ''unexpected end of JSON input''),
       ae_extract = (\<lambda>r. Inr []) \<rparr>"

text \<open>The manifests after one and two passes of the heuristic, and a set of files.\<close>

definition deployment_256Mi :: string where
  "deployment_256Mi =
     ''kind: Deployment\<newline>metadata:\<newline>  name: web\<newline>spec:\<newline>  resources:\<newline>    limits:\<newline>      memory: 256Mi\<newline>''"

definition deployment_192Mi :: string where
  "deployment_192Mi =
     ''kind: Deployment\<newline>metadata:\<newline>  name: web\<newline>spec:\<newline>  resources:\<newline>    limits:\<newline>      memory: 192Mi\<newline>''"

definition deployment_288Mi :: string where
  "deployment_288Mi =
     ''kind: Deployment\<newline>metadata:\<newline>  name: web\<newline>spec:\<newline>  resources:\<newline>    limits:\<newline>      memory: 288Mi\<newline>''"

definition two_manifests :: "(string \<times> string) list" where
  "two_manifests = [(''deployment.yaml'', deployment_6Mi), (''web.yml'', deployment_128Mi),
                    (''README.md'', ''kind: Deployment'')]"

section \<open>Facts about the string primitives\<close>

lemma Index_char_None: "Index s [c] = None \<longleftrightarrow> c \<notin> set s"
  by (induction s) auto

lemma Index_char_takeWhile:
  "c \<in> set s \<Longrightarrow> Index s [c] = Some (length (takeWhile (\<lambda>x. x \<noteq> c) s))"
  by (induction s) auto

lemma take_length_takeWhile: "take (length (takeWhile P s)) s = takeWhile P s"
  by (induction s) auto

lemma Contains_char: "Contains s [c] \<longleftrightarrow> c \<in> set s"
  by (simp add: Contains_def Index_char_None)

lemma SplitN_slash_two:
  "c \<in> set s \<Longrightarrow>
     SplitN s [c] 2 = [takeWhile (\<lambda>x. x \<noteq> c) s, drop (Suc (length (takeWhile (\<lambda>x. x \<noteq> c) s))) s]"
  by (simp add: numeral_2_eq_2 Index_char_takeWhile take_length_takeWhile)

lemma parseNamespace_slash:
  assumes "CHR ''/'' \<in> set (spec_name obj)"
  shows "parseNamespace obj =
           (takeWhile (\<lambda>x. x \<noteq> CHR ''/'') (spec_name obj),
            drop (Suc (length (takeWhile (\<lambda>x. x \<noteq> CHR ''/'') (spec_name obj)))) (spec_name obj))"
proof -
  from assms have ne: "spec_name obj \<noteq> []" by auto
  show ?thesis
    using assms ne by (simp add: parseNamespace_def Contains_char SplitN_slash_two Let_def)
qed

lemma parseNamespace_no_slash:
  assumes "CHR ''/'' \<notin> set (spec_name obj)"
  shows "parseNamespace obj =
           (if meta_namespace obj = [] then ''default'' else meta_namespace obj, spec_name obj)"
  using assms by (simp add: parseNamespace_def Contains_char Let_def)

section \<open>Namespace resolution\<close>

text \<open>
  Claim C8. The namespace of the diagnostic is (a) the text before the first \<open>/\<close> of
  \<open>spec.name\<close> when that name contains a \<open>/\<close>, (b) otherwise the metadata namespace,
  (c) and the literal \<open>default\<close> when the metadata namespace is empty. The three
  examples of the specification are instances: \<open>nginx-unstable/nginx-oom-7445cfcc57-mh8s7\<close>
  gives \<open>nginx-unstable\<close>; \<open>justname\<close> with metadata namespace \<open>prod\<close> gives \<open>prod\<close>;
  \<open>justname\<close> with an empty metadata namespace gives \<open>default\<close>.
\<close>

theorem namespace_resolution_order:
  "diag_namespace (extractDiagnostic obj) =
     (if CHR ''/'' \<in> set (spec_name obj) then takeWhile (\<lambda>c. c \<noteq> CHR ''/'') (spec_name obj)
      else if meta_namespace obj \<noteq> [] then meta_namespace obj
      else ''default'')
   \<and> diag_namespace (extractDiagnostic
         (obj\<lparr>spec_name := ''nginx-unstable/nginx-oom-7445cfcc57-mh8s7''\<rparr>)) = ''nginx-unstable''
   \<and> diag_namespace (extractDiagnostic
         (obj\<lparr>spec_name := ''justname'', meta_namespace := ''prod''\<rparr>)) = ''prod''
   \<and> diag_namespace (extractDiagnostic
         (obj\<lparr>spec_name := ''justname'', meta_namespace := []\<rparr>)) = ''default''"
proof -
  have gen: "diag_namespace (extractDiagnostic o') =
     (if CHR ''/'' \<in> set (spec_name o') then takeWhile (\<lambda>c. c \<noteq> CHR ''/'') (spec_name o')
      else if meta_namespace o' \<noteq> [] then meta_namespace o'
      else ''default'')" for o' :: k8s_object
  proof (cases "CHR ''/'' \<in> set (spec_name o')")
    case True
    then show ?thesis
      by (simp add: extractDiagnostic_def parseNamespace_slash Let_def)
  next
    case False
    then show ?thesis
      by (simp add: extractDiagnostic_def parseNamespace_no_slash Let_def)
  qed
  show ?thesis
    by (simp add: gen)
qed

section \<open>The invariant of the dedup gate\<close>

lemma gate_inv_initial: "gate_inv initial"
  by (simp add: gate_inv_def mutex_inv_def runs_inv_def initial_def cs_set_def)

lemma goto_simps [simp]:
  "length (handlers (goto i p s)) = length (handlers s)"
  "processedResources (goto i p s) = processedResources s"
  "processedMutex (goto i p s) = processedMutex s"
  "pipelineRuns (goto i p s) = pipelineRuns s"
  by (simp_all add: goto_def)

lemma pcs_goto [simp]:
  "i < length (handlers s) \<Longrightarrow> pcs (goto i p s) j = (if j = i then p else pcs s j)"
  by (simp add: pcs_def goto_def nth_list_update)

lemma hid_goto [simp]: "hid (goto i p s) j = hid s j"
  by (cases "i < length (handlers s)") (simp_all add: hid_def goto_def nth_list_update list_update_beyond)

lemma upd_simps [simp]:
  "pcs (s\<lparr>processedMutex := b\<rparr>) = pcs s"
  "pcs (s\<lparr>processedResources := m\<rparr>) = pcs s"
  "pcs (s\<lparr>pipelineRuns := r\<rparr>) = pcs s"
  "hid (s\<lparr>processedMutex := b\<rparr>) = hid s"
  "hid (s\<lparr>processedResources := m\<rparr>) = hid s"
  "hid (s\<lparr>pipelineRuns := r\<rparr>) = hid s"
  by (simp_all add: pcs_def hid_def fun_eq_iff)

lemma cs_set_goto [simp]:
  "i < length (handlers s) \<Longrightarrow>
     cs_set (goto i p s) = (if in_cs p then insert i (cs_set s) else cs_set s - {i})"
  by (auto simp: cs_set_def)

lemma cs_set_upd [simp]:
  "cs_set (s\<lparr>processedMutex := b\<rparr>) = cs_set s"
  "cs_set (s\<lparr>processedResources := m\<rparr>) = cs_set s"
  "cs_set (s\<lparr>pipelineRuns := r\<rparr>) = cs_set s"
  by (simp_all add: cs_set_def)

lemma cs_set_handleResult [simp]: "cs_set (handleResult obj s) = cs_set s"
  by (auto simp: cs_set_def pcs_def handleResult_def nth_append less_Suc_eq)

lemma cs_set_iff: "i \<in> cs_set s \<longleftrightarrow> i < length (handlers s) \<and> in_cs (pcs s i)"
  by (simp add: cs_set_def)




lemma mutex_invI:
  assumes "processedMutex s = (cs_set s \<noteq> {})"
    "\<And>k j. k < length (handlers s) \<Longrightarrow> j < length (handlers s) \<Longrightarrow> in_cs (pcs s k) \<Longrightarrow> in_cs (pcs s j) \<Longrightarrow> k = j"
    "\<And>k. k < length (handlers s) \<Longrightarrow> passed (pcs s k) \<Longrightarrow> processedResources s (hid s k) = Some True"
    "\<And>k. k < length (handlers s) \<Longrightarrow> pcs s k = AtMark \<Longrightarrow> processedResources s (hid s k) \<noteq> Some True"
    "\<And>k j. k < length (handlers s) \<Longrightarrow> j < length (handlers s) \<Longrightarrow> passed (pcs s k) \<Longrightarrow> passed (pcs s j) \<Longrightarrow> hid s k = hid s j \<Longrightarrow> k = j"
  shows "mutex_inv s"
  unfolding mutex_inv_def using assms by blast

lemma mutex_inv_lock: "mutex_inv s \<Longrightarrow> processedMutex s = (cs_set s \<noteq> {})"
  by (simp add: mutex_inv_def)

lemma mutex_inv_excl:
  "mutex_inv s \<Longrightarrow> k < length (handlers s) \<Longrightarrow> j < length (handlers s) \<Longrightarrow> in_cs (pcs s k) \<Longrightarrow> in_cs (pcs s j) \<Longrightarrow> k = j"
  by (simp add: mutex_inv_def)

lemma mutex_inv_passed:
  "mutex_inv s \<Longrightarrow> k < length (handlers s) \<Longrightarrow> passed (pcs s k) \<Longrightarrow> processedResources s (hid s k) = Some True"
  by (simp add: mutex_inv_def)

lemma mutex_inv_mark:
  "mutex_inv s \<Longrightarrow> k < length (handlers s) \<Longrightarrow> pcs s k = AtMark \<Longrightarrow> processedResources s (hid s k) \<noteq> Some True"
  by (simp add: mutex_inv_def)

lemma mutex_inv_uniq:
  "mutex_inv s \<Longrightarrow> k < length (handlers s) \<Longrightarrow> j < length (handlers s) \<Longrightarrow> passed (pcs s k) \<Longrightarrow> passed (pcs s j) \<Longrightarrow> hid s k = hid s j \<Longrightarrow> k = j"
  by (simp add: mutex_inv_def)

lemma mutex_inv_handleResult:
  assumes "mutex_inv s"
  shows "mutex_inv (handleResult obj s)"
proof -
  note excl = mutex_inv_excl[OF assms(1)] and p = mutex_inv_passed[OF assms(1)]
    and m = mutex_inv_mark[OF assms(1)] and u = mutex_inv_uniq[OF assms(1)]
    and l = mutex_inv_lock[OF assms(1)]
  have len: "length (handlers (handleResult obj s)) = Suc (length (handlers s))"
    by (simp add: handleResult_def)
  have pcs: "pcs (handleResult obj s) k = (if k < length (handlers s) then pcs s k else AtLock)"
    if "k < Suc (length (handlers s))" for k
    using that by (auto simp: pcs_def handleResult_def nth_append less_Suc_eq)
  have hid: "hid (handleResult obj s) k = hid s k" if "k < length (handlers s)" for k
    using that by (auto simp: hid_def handleResult_def nth_append)
  have pr: "processedResources (handleResult obj s) = processedResources s"
    "processedMutex (handleResult obj s) = processedMutex s"
    by (simp_all add: handleResult_def)
  show ?thesis
  proof (rule mutex_invI)
    show "processedMutex (handleResult obj s) = (cs_set (handleResult obj s) \<noteq> {})"
      using l by (simp add: pr)
  next
    fix k j assume "k < length (handlers (handleResult obj s))" "j < length (handlers (handleResult obj s))"
      "in_cs (pcs (handleResult obj s) k)" "in_cs (pcs (handleResult obj s) j)"
    then show "k = j" using excl[of k j] by (auto simp: len pcs split: if_splits)
  next
    fix k assume "k < length (handlers (handleResult obj s))" "passed (pcs (handleResult obj s) k)"
    then show "processedResources (handleResult obj s) (hid (handleResult obj s) k) = Some True"
      using p[of k] by (auto simp: len pcs hid pr split: if_splits)
  next
    fix k assume "k < length (handlers (handleResult obj s))" "pcs (handleResult obj s) k = AtMark"
    then show "processedResources (handleResult obj s) (hid (handleResult obj s) k) \<noteq> Some True"
      using m[of k] by (auto simp: len pcs hid pr split: if_splits)
  next
    fix k j assume "k < length (handlers (handleResult obj s))" "j < length (handlers (handleResult obj s))"
      "passed (pcs (handleResult obj s) k)" "passed (pcs (handleResult obj s) j)"
      "hid (handleResult obj s) k = hid (handleResult obj s) j"
    then show "k = j" using u[of k j] by (auto simp: len pcs hid split: if_splits)
  qed
qed

lemma runs_inv_frame:
  assumes "runs_inv s" "length (handlers s') = length (handlers s)"
    "pipelineRuns s' = pipelineRuns s"
    "\<And>k. k < length (handlers s) \<Longrightarrow> is_finished (pcs s' k) = is_finished (pcs s k)"
    "\<And>k. k < length (handlers s) \<Longrightarrow> hid s' k = hid s k"
  shows "runs_inv s'"
proof -
  have "(\<exists>i < length (handlers s'). is_finished (pcs s' i) \<and> hid s' i = r)
        \<longleftrightarrow> (\<exists>i < length (handlers s). is_finished (pcs s i) \<and> hid s i = r)" for r
    using assms(2,4,5) by auto
  with assms(1,3) show ?thesis by (simp add: runs_inv_def)
qed

lemma runs_inv_handleResult:
  assumes "runs_inv s"
  shows "runs_inv (handleResult obj s)"
proof -
  let ?s' = "handleResult obj s"
  have len: "length (handlers ?s') = Suc (length (handlers s))"
    by (simp add: handleResult_def)
  have old: "pcs ?s' k = pcs s k" "hid ?s' k = hid s k" if "k < length (handlers s)" for k
    using that by (simp_all add: pcs_def hid_def handleResult_def nth_append)
  have new: "pcs ?s' (length (handlers s)) = AtLock"
    by (simp add: pcs_def handleResult_def)
  have "(\<exists>i < length (handlers ?s'). is_finished (pcs ?s' i) \<and> hid ?s' i = r)
        \<longleftrightarrow> (\<exists>i < length (handlers s). is_finished (pcs s i) \<and> hid s i = r)" for r
  proof
    assume "\<exists>i < length (handlers ?s'). is_finished (pcs ?s' i) \<and> hid ?s' i = r"
    then obtain i where i: "i < Suc (length (handlers s))" "is_finished (pcs ?s' i)" "hid ?s' i = r"
      unfolding len by blast
    from i(1,2) new have "i < length (handlers s)"
      by (cases "i = length (handlers s)") simp_all
    with i old show "\<exists>i < length (handlers s). is_finished (pcs s i) \<and> hid s i = r"
      by (intro exI[of _ i]) simp
  next
    assume "\<exists>i < length (handlers s). is_finished (pcs s i) \<and> hid s i = r"
    then obtain i where i: "i < length (handlers s)" "is_finished (pcs s i)" "hid s i = r"
      by blast
    with old show "\<exists>i < length (handlers ?s'). is_finished (pcs ?s' i) \<and> hid ?s' i = r"
      unfolding len by (intro exI[of _ i]) simp
  qed
  moreover have "pipelineRuns ?s' = pipelineRuns s"
    by (simp add: handleResult_def)
  ultimately show ?thesis
    using assms by (simp add: runs_inv_def)
qed

lemma runs_inv_goto:
  assumes "runs_inv s" "i < length (handlers s)" "\<not> is_finished (pcs s i)" "\<not> is_finished p"
    "length (handlers s0) = length (handlers s)" "pipelineRuns s0 = pipelineRuns s"
    "pcs s0 = pcs s" "hid s0 = hid s"
  shows "runs_inv (goto i p s0)"
  using assms by (intro runs_inv_frame[OF assms(1)]) auto

lemma step_AtLock:
  assumes "mutex_inv s" "i < length (handlers s)" "pcs s i = AtLock" "\<not> processedMutex s"
  shows "mutex_inv (goto i AtCheck (s\<lparr>processedMutex := True\<rparr>))"
proof -
  note excl = mutex_inv_excl[OF assms(1)] and p = mutex_inv_passed[OF assms(1)]
    and m = mutex_inv_mark[OF assms(1)] and u = mutex_inv_uniq[OF assms(1)]
    and l = mutex_inv_lock[OF assms(1)]
  from assms(1,4) have cs: "cs_set s = {}" by (simp add: mutex_inv_def)
  then have nocs: "\<And>k. k < length (handlers s) \<Longrightarrow> \<not> in_cs (pcs s k)" by (auto simp: cs_set_def)
  show ?thesis
  proof (rule mutex_invI)
    show "processedMutex (goto i AtCheck (s\<lparr>processedMutex := True\<rparr>)) = (cs_set (goto i AtCheck (s\<lparr>processedMutex := True\<rparr>)) \<noteq> {})"
      using assms(2-) l cs_set_iff[of i s] by auto
  qed (use assms(2,3) nocs p m u in \<open>auto split: if_splits\<close>)
qed

lemma step_AtCheck_skip:
  assumes "mutex_inv s" "i < length (handlers s)" "pcs s i = AtCheck"
  shows "mutex_inv (goto i AtSkipUnlock s)"
proof -
  note excl = mutex_inv_excl[OF assms(1)] and p = mutex_inv_passed[OF assms(1)]
    and m = mutex_inv_mark[OF assms(1)] and u = mutex_inv_uniq[OF assms(1)]
    and l = mutex_inv_lock[OF assms(1)]
  show ?thesis
  proof (rule mutex_invI)
    show "processedMutex (goto i AtSkipUnlock s) = (cs_set (goto i AtSkipUnlock s) \<noteq> {})"
      using assms(2-) l cs_set_iff[of i s] by auto
  qed (use assms(2,3) excl p m u in \<open>auto split: if_splits\<close>)
qed

lemma step_AtCheck_mark:
  assumes "mutex_inv s" "i < length (handlers s)" "pcs s i = AtCheck" "processedResources s (hid s i) \<noteq> Some True"
  shows "mutex_inv (goto i AtMark s)"
proof -
  note excl = mutex_inv_excl[OF assms(1)] and p = mutex_inv_passed[OF assms(1)]
    and m = mutex_inv_mark[OF assms(1)] and u = mutex_inv_uniq[OF assms(1)]
    and l = mutex_inv_lock[OF assms(1)]
  show ?thesis
  proof (rule mutex_invI)
    show "processedMutex (goto i AtMark s) = (cs_set (goto i AtMark s) \<noteq> {})"
      using assms(2-) l cs_set_iff[of i s] by auto
  qed (use assms(2,3,4) excl p m u in \<open>auto split: if_splits\<close>)
qed

lemma step_AtSkipUnlock:
  assumes "mutex_inv s" "i < length (handlers s)" "pcs s i = AtSkipUnlock"
  shows "mutex_inv (goto i Skipped (s\<lparr>processedMutex := False\<rparr>))"
proof -
  note excl = mutex_inv_excl[OF assms(1)] and p = mutex_inv_passed[OF assms(1)]
    and m = mutex_inv_mark[OF assms(1)] and u = mutex_inv_uniq[OF assms(1)]
    and l = mutex_inv_lock[OF assms(1)]
  have "k = i" if "k \<in> cs_set s" for k
    using excl[of k i] that assms(2,3) by (simp add: cs_set_iff)
  then have only: "cs_set s - {i} = {}" by blast
  show ?thesis
  proof (rule mutex_invI)
    show "processedMutex (goto i Skipped (s\<lparr>processedMutex := False\<rparr>)) = (cs_set (goto i Skipped (s\<lparr>processedMutex := False\<rparr>)) \<noteq> {})"
      using assms(2) only by simp
  qed (use assms(2,3) excl p m u in \<open>auto split: if_splits\<close>)
qed

lemma step_AtMark:
  assumes "mutex_inv s" "i < length (handlers s)" "pcs s i = AtMark"
  shows "mutex_inv (goto i AtUnlock (s\<lparr>processedResources := (processedResources s)(hid s i \<mapsto> True)\<rparr>))"
proof -
  note excl = mutex_inv_excl[OF assms(1)] and p = mutex_inv_passed[OF assms(1)]
    and m = mutex_inv_mark[OF assms(1)] and u = mutex_inv_uniq[OF assms(1)]
    and l = mutex_inv_lock[OF assms(1)]
  from m[OF assms(2,3)] p have nopass: "\<And>k. k < length (handlers s) \<Longrightarrow> passed (pcs s k) \<Longrightarrow> hid s k \<noteq> hid s i"
    by metis
  show ?thesis
  proof (rule mutex_invI)
    show "processedMutex (goto i AtUnlock (s\<lparr>processedResources := (processedResources s)(hid s i \<mapsto> True)\<rparr>)) = (cs_set (goto i AtUnlock (s\<lparr>processedResources := (processedResources s)(hid s i \<mapsto> True)\<rparr>)) \<noteq> {})"
      using assms(2-) l cs_set_iff[of i s] by auto
  qed (use assms(2,3) excl p nopass u in \<open>auto split: if_splits\<close>)
qed

lemma step_AtUnlock:
  assumes "mutex_inv s" "i < length (handlers s)" "pcs s i = AtUnlock"
  shows "mutex_inv (goto i AtPipeline (s\<lparr>processedMutex := False\<rparr>))"
proof -
  note excl = mutex_inv_excl[OF assms(1)] and p = mutex_inv_passed[OF assms(1)]
    and m = mutex_inv_mark[OF assms(1)] and u = mutex_inv_uniq[OF assms(1)]
    and l = mutex_inv_lock[OF assms(1)]
  have "k = i" if "k \<in> cs_set s" for k
    using excl[of k i] that assms(2,3) by (simp add: cs_set_iff)
  then have only: "cs_set s - {i} = {}" by blast
  show ?thesis
  proof (rule mutex_invI)
    show "processedMutex (goto i AtPipeline (s\<lparr>processedMutex := False\<rparr>)) = (cs_set (goto i AtPipeline (s\<lparr>processedMutex := False\<rparr>)) \<noteq> {})"
      using assms(2) only by simp
  qed (use assms(2,3) excl p m u in \<open>auto split: if_splits\<close>)
qed

lemma step_AtPipeline:
  assumes "mutex_inv s" "i < length (handlers s)" "pcs s i = AtPipeline"
  shows "mutex_inv (goto i (Finished oc) (s\<lparr>pipelineRuns := pipelineRuns s @ [hid s i]\<rparr>))"
proof -
  note excl = mutex_inv_excl[OF assms(1)] and p = mutex_inv_passed[OF assms(1)]
    and m = mutex_inv_mark[OF assms(1)] and u = mutex_inv_uniq[OF assms(1)]
    and l = mutex_inv_lock[OF assms(1)]
  show ?thesis
  proof (rule mutex_invI)
    show "processedMutex (goto i (Finished oc) (s\<lparr>pipelineRuns := pipelineRuns s @ [hid s i]\<rparr>)) = (cs_set (goto i (Finished oc) (s\<lparr>pipelineRuns := pipelineRuns s @ [hid s i]\<rparr>)) \<noteq> {})"
      using assms(2-) l cs_set_iff[of i s] by auto
  qed (use assms(2,3) excl p m u in \<open>auto split: if_splits\<close>)
qed

lemma runs_AtPipeline:
  assumes "mutex_inv s" "runs_inv s" "i < length (handlers s)" "pcs s i = AtPipeline"
  shows "runs_inv (goto i (Finished oc) (s\<lparr>pipelineRuns := pipelineRuns s @ [hid s i]\<rparr>))"
proof -
  let ?s' = "goto i (Finished oc) (s\<lparr>pipelineRuns := pipelineRuns s @ [hid s i]\<rparr>)"
  have uniq: "k = i" if "k < length (handlers s)" "passed (pcs s k)" "hid s k = hid s i" for k
    using assms(1,3,4) that by (auto simp: mutex_inv_def)
  have fin_passed: "passed p" if "is_finished p" for p
    using that by (cases p) auto
  have notrun: "hid s i \<notin> set (pipelineRuns s)"
  proof
    assume "hid s i \<in> set (pipelineRuns s)"
    with assms(2) obtain k where k: "k < length (handlers s)" "is_finished (pcs s k)" "hid s k = hid s i"
      by (auto simp: runs_inv_def)
    with uniq fin_passed have "k = i" by blast
    with k assms(4) show False by simp
  qed
  have mem: "r \<in> set (pipelineRuns ?s') \<longleftrightarrow>
             (\<exists>k < length (handlers ?s'). is_finished (pcs ?s' k) \<and> hid ?s' k = r)" for r
  proof
    assume "r \<in> set (pipelineRuns ?s')"
    then consider "r = hid s i" | "r \<in> set (pipelineRuns s)" by auto
    then show "\<exists>k < length (handlers ?s'). is_finished (pcs ?s' k) \<and> hid ?s' k = r"
    proof cases
      case 1
      with assms(3) show ?thesis by (intro exI[of _ i]) simp
    next
      case 2
      with assms(2) obtain k where k: "k < length (handlers s)" "is_finished (pcs s k)" "hid s k = r"
        by (auto simp: runs_inv_def)
      with assms(3) show ?thesis by (intro exI[of _ k]) simp
    qed
  next
    assume "\<exists>k < length (handlers ?s'). is_finished (pcs ?s' k) \<and> hid ?s' k = r"
    then obtain k where k: "k < length (handlers s)" "is_finished (pcs ?s' k)" "hid s k = r"
      by auto
    show "r \<in> set (pipelineRuns ?s')"
    proof (cases "k = i")
      case True
      with k show ?thesis by simp
    next
      case False
      with k assms(3) have "is_finished (pcs s k)" by simp
      with k assms(2) have "r \<in> set (pipelineRuns s)" by (auto simp: runs_inv_def)
      then show ?thesis by simp
    qed
  qed
  from assms(2) notrun have "distinct (pipelineRuns ?s')"
    by (simp add: runs_inv_def)
  with mem show ?thesis unfolding runs_inv_def by blast
qed

lemma gate_inv_deliver: "gate_inv s \<Longrightarrow> gate_inv (deliver e s)"
  by (cases e) (simp_all add: gate_inv_def mutex_inv_handleResult runs_inv_handleResult)

lemma gate_inv_step:
  assumes "gate_inv s" "handler_step oc i s = Some s'"
  shows "gate_inv s'"
proof -
  from assms(2) have i: "i < length (handlers s)"
    by (auto simp: handler_step_def split: if_splits)
  from assms(1) have m: "mutex_inv s" and r: "runs_inv s"
    by (simp_all add: gate_inv_def)
  show ?thesis
  proof (cases "pcs s i")
    case AtLock
    with assms(2) i have s': "s' = goto i AtCheck (s\<lparr>processedMutex := True\<rparr>)" and f: "\<not> processedMutex s"
      by (auto simp: handler_step_def pcs_def split: if_splits)
    from r i AtLock have "runs_inv s'" unfolding s' by (intro runs_inv_goto[of s]) simp_all
    with step_AtLock[OF m i AtLock f] show ?thesis by (simp add: gate_inv_def s')
  next
    case AtCheck
    show ?thesis
    proof (cases "processedResources s (hid s i) = Some True")
      case True
      with assms(2) i AtCheck have s': "s' = goto i AtSkipUnlock s"
        by (auto simp: handler_step_def pcs_def split: if_splits)
      from r i AtCheck have "runs_inv s'" unfolding s' by (intro runs_inv_goto[of s]) simp_all
      with step_AtCheck_skip[OF m i AtCheck] show ?thesis by (simp add: gate_inv_def s')
    next
      case False
      with assms(2) i AtCheck have s': "s' = goto i AtMark s"
        by (auto simp: handler_step_def pcs_def split: if_splits option.splits bool.splits)
      from r i AtCheck have "runs_inv s'" unfolding s' by (intro runs_inv_goto[of s]) simp_all
      with step_AtCheck_mark[OF m i AtCheck False] show ?thesis by (simp add: gate_inv_def s')
    qed
  next
    case AtSkipUnlock
    with assms(2) i have s': "s' = goto i Skipped (s\<lparr>processedMutex := False\<rparr>)"
      by (auto simp: handler_step_def pcs_def split: if_splits)
    from r i AtSkipUnlock have "runs_inv s'" unfolding s' by (intro runs_inv_goto[of s]) simp_all
    with step_AtSkipUnlock[OF m i AtSkipUnlock] show ?thesis by (simp add: gate_inv_def s')
  next
    case AtMark
    with assms(2) i have s': "s' = goto i AtUnlock (s\<lparr>processedResources := (processedResources s)(hid s i \<mapsto> True)\<rparr>)"
      by (auto simp: handler_step_def pcs_def split: if_splits)
    from r i AtMark have "runs_inv s'" unfolding s' by (intro runs_inv_goto[of s]) simp_all
    with step_AtMark[OF m i AtMark] show ?thesis by (simp add: gate_inv_def s')
  next
    case AtUnlock
    with assms(2) i have s': "s' = goto i AtPipeline (s\<lparr>processedMutex := False\<rparr>)"
      by (auto simp: handler_step_def pcs_def split: if_splits)
    from r i AtUnlock have "runs_inv s'" unfolding s' by (intro runs_inv_goto[of s]) simp_all
    with step_AtUnlock[OF m i AtUnlock] show ?thesis by (simp add: gate_inv_def s')
  next
    case AtPipeline
    with assms(2) i have s': "s' = goto i (Finished oc) (s\<lparr>pipelineRuns := pipelineRuns s @ [hid s i]\<rparr>)"
      by (auto simp: handler_step_def pcs_def split: if_splits)
    from step_AtPipeline[OF m i AtPipeline] runs_AtPipeline[OF m r i AtPipeline]
    show ?thesis by (simp add: gate_inv_def s')
  next
    case (Finished x)
    with assms(2) i show ?thesis by (simp add: handler_step_def pcs_def)
  next
    case Skipped
    with assms(2) i show ?thesis by (simp add: handler_step_def pcs_def)
  qed
qed

lemma gate_inv_trans: "transition s s' \<Longrightarrow> gate_inv s \<Longrightarrow> gate_inv s'"
  by (induction rule: transition.induct) (auto intro: gate_inv_deliver gate_inv_step)

lemma gate_inv_rtrancl:
  assumes "transition\<^sup>*\<^sup>* s s'" "gate_inv s"
  shows "gate_inv s'"
  using assms by (induction rule: rtranclp_induct) (simp_all add: gate_inv_trans)

lemma gate_inv_reachable: "reachable s \<Longrightarrow> gate_inv s"
  unfolding reachable_def by (erule gate_inv_rtrancl) (rule gate_inv_initial)

section \<open>Runs of the controller\<close>

lemma exec_rtrancl: "exec as s = Some s' \<Longrightarrow> transition\<^sup>*\<^sup>* s s'"
proof (induction as arbitrary: s)
  case Nil
  then show ?case by simp
next
  case (Cons a as)
  show ?case
  proof (cases a)
    case (Deliver e)
    with Cons.prems have "exec as (deliver e s) = Some s'" by simp
    then have "transition\<^sup>*\<^sup>* (deliver e s) s'" by (rule Cons.IH)
    moreover have "transition s (deliver e s)" by (rule transition.delivered)
    ultimately show ?thesis by (rule converse_rtranclp_into_rtranclp[rotated])
  next
    case (Step i oc)
    with Cons.prems obtain s1 where s1: "handler_step oc i s = Some s1" "exec as s1 = Some s'"
      by (auto split: option.splits)
    from s1(2) have "transition\<^sup>*\<^sup>* s1 s'" by (rule Cons.IH)
    moreover from s1(1) have "transition s s1" by (rule transition.stepped)
    ultimately show ?thesis by (rule converse_rtranclp_into_rtranclp[rotated])
  qed
qed

lemma exec_reachable: "exec as initial = Some s \<Longrightarrow> reachable s"
  unfolding reachable_def by (rule exec_rtrancl)

lemma exec_append:
  "exec (as @ bs) s = (case exec as s of None \<Rightarrow> None | Some s' \<Rightarrow> exec bs s')"
proof (induction as arbitrary: s)
  case Nil
  then show ?case by simp
next
  case (Cons a as)
  then show ?case by (cases a) (simp_all split: option.splits)
qed

lemma keeps_refl: "keeps s s"
  by (simp add: keeps_def)

lemma keeps_trans:
  assumes "keeps s t" "keeps t u"
  shows "keeps s u"
proof -
  from assms have len: "length (handlers s) \<le> length (handlers t)" "length (handlers t) \<le> length (handlers u)"
    by (simp_all add: keeps_def)
  have "hid u i = hid s i" if "i < length (handlers s)" for i
    using assms len that by (simp add: keeps_def)
  moreover have "pcs u i = pcs s i" if "i < length (handlers s)" "is_finished (pcs s i)" for i
    using assms len that by (simp add: keeps_def)
  moreover have "processedResources u r = Some True" if "processedResources s r = Some True" for r
    using assms that by (simp add: keeps_def)
  ultimately show ?thesis
    using len by (simp add: keeps_def)
qed

lemma keeps_handleResult: "keeps s (handleResult obj s)"
  by (simp add: keeps_def handleResult_def hid_def pcs_def nth_append)

lemma keeps_deliver: "keeps s (deliver e s)"
  by (cases e) (simp_all add: keeps_handleResult keeps_refl)

lemma keeps_goto:
  assumes "i < length (handlers s)" "\<not> is_finished (pcs s i)"
    "length (handlers s1) = length (handlers s)" "hid s1 = hid s" "pcs s1 = pcs s"
    "\<And>r. processedResources s r = Some True \<Longrightarrow> processedResources s1 r = Some True"
  shows "keeps s (goto i p s1)"
proof -
  from assms(1,3) have i1: "i < length (handlers s1)" by simp
  show ?thesis
    unfolding keeps_def using assms i1 by (intro conjI allI impI) auto
qed

lemma keeps_step:
  assumes "handler_step oc i s = Some s'"
  shows "keeps s s'"
proof -
  from assms have i: "i < length (handlers s)"
    by (auto simp: handler_step_def split: if_splits)
  show ?thesis
  proof (cases "pcs s i")
    case AtLock
    with assms i have s': "s' = goto i AtCheck (s\<lparr>processedMutex := True\<rparr>)"
      by (auto simp: handler_step_def pcs_def split: if_splits)
    show ?thesis unfolding s' using i AtLock by (intro keeps_goto) simp_all
  next
    case AtCheck
    with assms i obtain p where s': "s' = goto i p s"
      by (auto simp: handler_step_def pcs_def split: if_splits option.splits bool.splits)
    show ?thesis unfolding s' using i AtCheck by (intro keeps_goto) simp_all
  next
    case AtSkipUnlock
    with assms i have s': "s' = goto i Skipped (s\<lparr>processedMutex := False\<rparr>)"
      by (auto simp: handler_step_def pcs_def split: if_splits)
    show ?thesis unfolding s' using i AtSkipUnlock by (intro keeps_goto) simp_all
  next
    case AtMark
    with assms i have s': "s' = goto i AtUnlock
        (s\<lparr>processedResources := (processedResources s)(hid s i \<mapsto> True)\<rparr>)"
      by (auto simp: handler_step_def pcs_def split: if_splits)
    show ?thesis unfolding s' using i AtMark by (intro keeps_goto) simp_all
  next
    case AtUnlock
    with assms i have s': "s' = goto i AtPipeline (s\<lparr>processedMutex := False\<rparr>)"
      by (auto simp: handler_step_def pcs_def split: if_splits)
    show ?thesis unfolding s' using i AtUnlock by (intro keeps_goto) simp_all
  next
    case AtPipeline
    with assms i have s': "s' = goto i (Finished oc) (s\<lparr>pipelineRuns := pipelineRuns s @ [hid s i]\<rparr>)"
      by (auto simp: handler_step_def pcs_def split: if_splits)
    show ?thesis unfolding s' using i AtPipeline by (intro keeps_goto) simp_all
  next
    case (Finished x)
    with assms i show ?thesis by (simp add: handler_step_def pcs_def)
  next
    case Skipped
    with assms i show ?thesis by (simp add: handler_step_def pcs_def)
  qed
qed

lemma keeps_step1: "transition s s' \<Longrightarrow> keeps s s'"
  by (induction rule: transition.induct) (simp_all add: keeps_deliver keeps_step)

lemma keeps_rtrancl: "transition\<^sup>*\<^sup>* s s' \<Longrightarrow> keeps s s'"
  by (induction rule: rtranclp_induct) (auto intro: keeps_refl keeps_trans keeps_step1)

lemma gate_unique:
  assumes "gate_inv s" "i < length (handlers s)" "j < length (handlers s)"
    "past_check (pcs s i)" "past_check (pcs s j)" "hid s i = hid s j"
  shows "i = j"
proof -
  from assms(1) have m: "mutex_inv s" by (simp add: gate_inv_def)
  have pc: "p = AtMark \<or> passed p" if "past_check p" for p
    using that by (cases p) simp_all
  from pc[OF assms(4)] pc[OF assms(5)] show ?thesis
  proof (elim disjE)
    assume "pcs s i = AtMark" "pcs s j = AtMark"
    with mutex_inv_excl[OF m assms(2,3)] show ?thesis by simp
  next
    assume "pcs s i = AtMark" "passed (pcs s j)"
    with mutex_inv_mark[OF m assms(2)] mutex_inv_passed[OF m assms(3)] assms(6)
    show ?thesis by simp
  next
    assume "passed (pcs s i)" "pcs s j = AtMark"
    with mutex_inv_mark[OF m assms(3)] mutex_inv_passed[OF m assms(2)] assms(6)
    show ?thesis by simp
  next
    assume "passed (pcs s i)" "passed (pcs s j)"
    with mutex_inv_uniq[OF m assms(2,3)] assms(6) show ?thesis by simp
  qed
qed

lemma count_list_distinct: "distinct xs \<Longrightarrow> count_list xs x = (if x \<in> set xs then 1 else 0)"
  by (induction xs) auto

section \<open>The dedup gate\<close>

text \<open>
  Claim C1. In every state the controller can reach, whatever events were delivered
  (any number of duplicates) and however the handlers interleave, the pipeline has
  run at most once for an identity, and no two handlers of one identity are both past
  the check of the gate. The mutual exclusion of the critical section is part of the
  invariant from which this follows; it is not assumed.
\<close>

theorem dedup_gate_at_most_once:
  "reachable s \<Longrightarrow>
     count_list (pipelineRuns s) rid \<le> 1 \<and>
     (\<forall>i < length (handlers s). \<forall>j < length (handlers s).
         past_check (pcs s i) \<and> past_check (pcs s j) \<and> hid s i = hid s j \<longrightarrow> i = j)"
proof -
  assume "reachable s"
  then have inv: "gate_inv s" by (rule gate_inv_reachable)
  then have "distinct (pipelineRuns s)" by (simp add: gate_inv_def runs_inv_def)
  then have "count_list (pipelineRuns s) rid \<le> 1" by (simp add: count_list_distinct)
  moreover have "\<forall>i < length (handlers s). \<forall>j < length (handlers s).
         past_check (pcs s i) \<and> past_check (pcs s j) \<and> hid s i = hid s j \<longrightarrow> i = j"
    using gate_unique[OF inv] by blast
  ultimately show ?thesis by simp
qed


theorem dedup_gate_witness:
  "reachable (the (exec five_adds initial)) \<and>
   pipelineRuns (the (exec five_adds initial)) = [''uid-1''] \<and>
   count_list (pipelineRuns (the (exec five_adds initial))) ''uid-1'' \<le> 1"
proof -
  have ex: "exec five_adds initial \<noteq> None" by code_simp
  then obtain s where s: "exec five_adds initial = Some s" by blast
  then have r: "reachable s" by (rule exec_reachable)
  have runs: "map_option pipelineRuns (exec five_adds initial) = Some [''uid-1'']" by code_simp
  from dedup_gate_at_most_once[OF r, of "''uid-1''"] r runs s show ?thesis by simp
qed

section \<open>Update events with an unchanged resource version\<close>

text \<open>
  Claim C2. An update event whose new object carries the same resource version as
  the old one leaves the controller as it is: no handler is created, so \<open>handleResult\<close>
  is not invoked and no pipeline runs, whatever the processed map holds for the identity,
  and however many times the event is delivered.
\<close>

theorem unchanged_update_is_skipped:
  "meta_resourceVersion oldObj = meta_resourceVersion newObj \<Longrightarrow>
     deliver (UpdateEvent oldObj newObj) s = s \<and>
     handlers (deliver (UpdateEvent oldObj newObj) s) = handlers s \<and>
     pipelineRuns (deliver (UpdateEvent oldObj newObj) s) = pipelineRuns s \<and>
     exec (replicate n (Deliver (UpdateEvent oldObj newObj))) s = Some s"
proof -
  assume same: "meta_resourceVersion oldObj = meta_resourceVersion newObj"
  then have one: "deliver (UpdateEvent oldObj newObj) s = s" by simp
  have "exec (replicate n (Deliver (UpdateEvent oldObj newObj))) s = Some s"
  proof (induction n)
    case 0
    then show ?case by simp
  next
    case (Suc n)
    with one show ?case by simp
  qed
  with one show ?thesis by simp
qed

theorem unchanged_update_witness:
  "meta_resourceVersion result_obj = meta_resourceVersion (result_obj\<lparr>spec_details := ''Error: x''\<rparr>) \<and>
   processedResources initial (resourceID result_obj) = None \<and>
   deliver (UpdateEvent result_obj (result_obj\<lparr>spec_details := ''Error: x''\<rparr>)) initial = initial \<and>
   exec (replicate 5 (Deliver (UpdateEvent result_obj (result_obj\<lparr>spec_details := ''Error: x''\<rparr>)))) initial
     = Some initial"
  using unchanged_update_is_skipped[of result_obj "result_obj\<lparr>spec_details := ''Error: x''\<rparr>" initial 5]
  by (simp add: initial_def)

section \<open>The processed mark is never taken back\<close>

text \<open>
  Claim C10. A handler that is past the gate finds its identity marked in the map (the
  mark precedes the pipeline); no transition takes a mark away; so once the pipeline of
  an identity has returned, with a failure or not, in every later state that identity
  is still marked, its pipeline has run exactly once, and every other handler of the
  identity is before the check or has been turned away.
\<close>

theorem processed_mark_is_permanent:
  "reachable s \<Longrightarrow> transition\<^sup>*\<^sup>* s s' \<Longrightarrow>
     (\<forall>i < length (handlers s). passed (pcs s i) \<longrightarrow> processedResources s (hid s i) = Some True) \<and>
     (\<forall>r. processedResources s r = Some True \<longrightarrow> processedResources s' r = Some True) \<and>
     (\<forall>i < length (handlers s). \<forall>oc. pcs s i = Finished oc \<longrightarrow>
         processedResources s' (hid s i) = Some True \<and>
         count_list (pipelineRuns s') (hid s i) = 1 \<and>
         (\<forall>j < length (handlers s'). j \<noteq> i \<and> hid s' j = hid s i \<longrightarrow> \<not> past_check (pcs s' j)))"
proof -
  assume r: "reachable s" and run: "transition\<^sup>*\<^sup>* s s'"
  from r have inv: "gate_inv s" by (rule gate_inv_reachable)
  from run inv have inv': "gate_inv s'" by (rule gate_inv_rtrancl)
  from run have k: "keeps s s'" by (rule keeps_rtrancl)
  from inv have m: "mutex_inv s" by (simp add: gate_inv_def)
  from inv' have m': "mutex_inv s'" and r': "runs_inv s'" by (simp_all add: gate_inv_def)
  have marked: "\<forall>i < length (handlers s). passed (pcs s i) \<longrightarrow> processedResources s (hid s i) = Some True"
    using mutex_inv_passed[OF m] by blast
  have mono: "\<forall>r. processedResources s r = Some True \<longrightarrow> processedResources s' r = Some True"
    using k by (simp add: keeps_def)
  have fin: "processedResources s' (hid s i) = Some True \<and>
         count_list (pipelineRuns s') (hid s i) = 1 \<and>
         (\<forall>j < length (handlers s'). j \<noteq> i \<and> hid s' j = hid s i \<longrightarrow> \<not> past_check (pcs s' j))"
    if i: "i < length (handlers s)" and f: "pcs s i = Finished oc" for i oc
  proof -
    from k i have i': "i < length (handlers s')" and h: "hid s' i = hid s i"
      by (simp_all add: keeps_def)
    from k i f have f': "pcs s' i = Finished oc" by (simp add: keeps_def)
    from mutex_inv_passed[OF m' i'] f' h have p: "processedResources s' (hid s i) = Some True"
      by simp
    from r' i' f' h have "hid s i \<in> set (pipelineRuns s')"
      unfolding runs_inv_def by (metis is_finished.simps(1))
    moreover from r' have "distinct (pipelineRuns s')" by (simp add: runs_inv_def)
    ultimately have c: "count_list (pipelineRuns s') (hid s i) = 1"
      by (simp add: count_list_distinct)
    have "\<not> past_check (pcs s' j)" if "j < length (handlers s')" "j \<noteq> i" "hid s' j = hid s i" for j
    proof
      assume "past_check (pcs s' j)"
      with gate_unique[OF inv' that(1) i'] f' h that(3) have "j = i" by simp
      with that(2) show False by simp
    qed
    with p c show ?thesis by blast
  qed
  from marked mono fin show ?thesis by blast
qed

theorem processed_mark_witness:
  "reachable (the (exec failed_run initial)) \<and>
   transition\<^sup>*\<^sup>* (the (exec failed_run initial)) (the (exec (failed_run @ later_update) initial)) \<and>
   pcs (the (exec failed_run initial)) 0 = Finished NoFilesFound \<and>
   map h_pc (handlers (the (exec (failed_run @ later_update) initial))) = [Finished NoFilesFound, Skipped] \<and>
   count_list (pipelineRuns (the (exec (failed_run @ later_update) initial))) ''uid-1'' = 1"
proof -
  have "exec failed_run initial \<noteq> None" by code_simp
  then obtain s where s: "exec failed_run initial = Some s" by blast
  have "(case exec failed_run initial of None \<Rightarrow> None | Some t \<Rightarrow> exec later_update t) \<noteq> None" by code_simp
  with s obtain s' where s': "exec later_update s = Some s'" by auto
  from s s' have ss': "exec (failed_run @ later_update) initial = Some s'"
    by (simp add: exec_append)
  from s have r: "reachable s" by (rule exec_reachable)
  from s' have run: "transition\<^sup>*\<^sup>* s s'" by (rule exec_rtrancl)
  have pcs0: "map_option (\<lambda>t. (length (handlers t), pcs t 0, hid t 0)) (exec failed_run initial)
               = Some (1, Finished NoFilesFound, ''uid-1'')" by code_simp
  have pcs': "map_option (\<lambda>t. map h_pc (handlers t)) (exec (failed_run @ later_update) initial)
               = Some [Finished NoFilesFound, Skipped]" by code_simp
  from pcs0 s have a: "0 < length (handlers s)" "pcs s 0 = Finished NoFilesFound" "hid s 0 = ''uid-1''"
    by simp_all
  from processed_mark_is_permanent[OF r run] a
  have "count_list (pipelineRuns s') ''uid-1'' = 1" by metis
  with r run a pcs' s ss' show ?thesis by simp
qed

section \<open>The publisher\<close>

lemma show_nat_not_Nil: "show_nat n \<noteq> []"
  by (subst show_nat.simps) simp

text \<open>
  Claim C7, as the code has it. \<open>sendToGHService\<close> reads the whole body before it
  looks at the status. When the body cannot be read the call returns the read error,
  whatever the status is. When the body is read, the status test is
  \<open>StatusCode >= 400\<close>: a response with such a status is returned as an error whose
  text holds the status and ends with the response body, and a response with a lower
  status (also a 1xx or a 3xx) is a success. A request that cannot be built or sent is
  returned as an error of its own. The four error texts differ from each other, whatever
  the status, the body and the underlying errors are, so a caller can tell a rejection
  by the service from a failure to reach it.
\<close>

theorem publish_error_surfacing:
  "(service (buildPRPayload cfg fileUpdates diag) = PRResponded statusCode (Inr respBody)
      \<and> statusCode \<ge> 400 \<longrightarrow>
      sendToGHService cfg service fileUpdates diag =
        Some (''gh-service returned error status '' @ show_int statusCode @ '': '' @ respBody)) \<and>
   (service (buildPRPayload cfg fileUpdates diag) = PRResponded statusCode (Inr respBody)
      \<and> statusCode < 400 \<longrightarrow>
      sendToGHService cfg service fileUpdates diag = None) \<and>
   (service (buildPRPayload cfg fileUpdates diag) = PRResponded statusCode (Inl e) \<longrightarrow>
      sendToGHService cfg service fileUpdates diag =
        Some (''failed to read response body: '' @ e)) \<and>
   (service (buildPRPayload cfg fileUpdates diag) = PRSendFailed e \<longrightarrow>
      sendToGHService cfg service fileUpdates diag =
        Some (''failed to send request to gh-service: '' @ e)) \<and>
   (service (buildPRPayload cfg fileUpdates diag) = PRRequestFailed e \<longrightarrow>
      sendToGHService cfg service fileUpdates diag =
        Some (''failed to create request: '' @ e)) \<and>
   ''failed to send request to gh-service: '' @ e
      \<noteq> ''gh-service returned error status '' @ show_int statusCode @ '': '' @ respBody \<and>
   ''failed to read response body: '' @ e
      \<noteq> ''gh-service returned error status '' @ show_int statusCode @ '': '' @ respBody \<and>
   ''failed to create request: '' @ e
      \<noteq> ''gh-service returned error status '' @ show_int statusCode @ '': '' @ respBody \<and>
   ''failed to send request to gh-service: '' @ e \<noteq> ''failed to read response body: '' @ e' \<and>
   ''failed to send request to gh-service: '' @ e \<noteq> ''failed to create request: '' @ e' \<and>
   ''failed to read response body: '' @ e \<noteq> ''failed to create request: '' @ e'"
  by (simp add: sendToGHService_def)

theorem publish_error_witness:
  "sendToGHService default_config failing_service one_update (extractDiagnostic result_obj)
     = Some ''gh-service returned error status 500: branch already exists'' \<and>
   sendToGHService default_config not_modified_service one_update (extractDiagnostic result_obj)
     = None \<and>
   sendToGHService default_config broken_body_service one_update (extractDiagnostic result_obj)
     = Some ''failed to read response body: unexpected EOF'' \<and>
   sendToGHService default_config unreachable_service one_update (extractDiagnostic result_obj)
     = Some ''failed to send request to gh-service: dial tcp: connection refused''"
proof -
  let ?req = "buildPRPayload default_config one_update (extractDiagnostic result_obj)"
  have s500: "show_int 500 = ''500''" by code_simp
  have a: "failing_service ?req = PRResponded 500 (Inr ''branch already exists'') \<and> (500::int) \<ge> 400"
    by (simp add: failing_service_def)
  have b: "not_modified_service ?req = PRResponded 304 (Inr ''not modified'') \<and> (304::int) < 400"
    by (simp add: not_modified_service_def)
  have c: "unreachable_service ?req = PRSendFailed ''dial tcp: connection refused''"
    by (simp add: unreachable_service_def)
  have d: "broken_body_service ?req = PRResponded 200 (Inl ''unexpected EOF'')"
    by (simp add: broken_body_service_def)
  from publish_error_surfacing[where service = failing_service and cfg = default_config
          and fileUpdates = one_update and diag = "extractDiagnostic result_obj"
          and statusCode = 500 and respBody = "''branch already exists''" and e = "[]" and e' = "[]"] a
  have "sendToGHService default_config failing_service one_update (extractDiagnostic result_obj)
          = Some (''gh-service returned error status '' @ show_int 500 @ '': '' @ ''branch already exists'')"
    by (elim conjE) simp
  moreover from publish_error_surfacing[where service = not_modified_service and cfg = default_config
          and fileUpdates = one_update and diag = "extractDiagnostic result_obj"
          and statusCode = 304 and respBody = "''not modified''" and e = "[]" and e' = "[]"] b
  have "sendToGHService default_config not_modified_service one_update (extractDiagnostic result_obj) = None"
    by (elim conjE) simp
  moreover from publish_error_surfacing[where service = unreachable_service and cfg = default_config
          and fileUpdates = one_update and diag = "extractDiagnostic result_obj"
          and e = "''dial tcp: connection refused''" and statusCode = 0 and respBody = "[]"
          and e' = "[]"] c
  have "sendToGHService default_config unreachable_service one_update (extractDiagnostic result_obj)
          = Some (''failed to send request to gh-service: '' @ ''dial tcp: connection refused'')"
    by (elim conjE) simp
  moreover from publish_error_surfacing[where service = broken_body_service and cfg = default_config
          and fileUpdates = one_update and diag = "extractDiagnostic result_obj"
          and statusCode = 200 and e = "''unexpected EOF''" and respBody = "[]" and e' = "[]"] d
  have "sendToGHService default_config broken_body_service one_update (extractDiagnostic result_obj)
          = Some (''failed to read response body: '' @ ''unexpected EOF'')"
    by (elim conjE) simp
  ultimately show ?thesis by (simp add: s500)
qed

text \<open>
  The claim as the specification states it fails: the service answers with the
  non-2xx status 304 and \<open>sendToGHService\<close> returns \<open>nil\<close>.
\<close>

theorem publish_non_2xx_counterexample:
  "not_modified_service (buildPRPayload default_config one_update (extractDiagnostic result_obj))
     = PRResponded 304 (Inr ''not modified'') \<and>
   sendToGHService default_config not_modified_service one_update (extractDiagnostic result_obj)
     = None"
  by (simp add: sendToGHService_def not_modified_service_def)

section \<open>The fallback flag\<close>

lemma sendToAIEndpoint_ignores_useFallback:
  "sendToAIEndpoint (cfg\<lparr>useFallback := b\<rparr>) env files solution
     = sendToAIEndpoint cfg env files solution"
  by (simp add: sendToAIEndpoint_def)

lemma sendToGHService_ignores_useFallback:
  "sendToGHService (cfg\<lparr>useFallback := b\<rparr>) service fileUpdates diag
     = sendToGHService cfg service fileUpdates diag"
  by (simp add: sendToGHService_def buildPRPayload_def)

lemma fallback_updates:
  "ai_fallback (sendToAIEndpoint cfg env files solution) \<Longrightarrow>
     ai_updates (sendToAIEndpoint cfg env files solution)
       = generateLocalFallbackResponse solution files"
  by (simp add: sendToAIEndpoint_def Let_def
           split: if_splits loop_result.splits option.splits sum.splits)

text \<open>
  Claim C9. \<open>useFallback\<close> is read nowhere after start-up (\<open>main\<close> prints it in its
  banner): the result of \<open>sendToAIEndpoint\<close>, with its calls, sleeps and updates, and
  the outcome of the whole pipeline of a diagnostic are the same for both values of the
  flag. In particular the local fallback is used with the flag off: a result marked as
  fallback carries the updates of \<open>generateLocalFallbackResponse\<close>.
\<close>

theorem useFallback_has_no_effect:
  "sendToAIEndpoint (cfg\<lparr>useFallback := b\<rparr>) env files solution
     = sendToAIEndpoint cfg env files solution \<and>
   processResult (cfg\<lparr>useFallback := b\<rparr>) penv obj = processResult cfg penv obj \<and>
   (ai_fallback (sendToAIEndpoint (cfg\<lparr>useFallback := False\<rparr>) env files solution) \<longrightarrow>
      ai_updates (sendToAIEndpoint (cfg\<lparr>useFallback := False\<rparr>) env files solution)
        = generateLocalFallbackResponse solution files)"
proof -
  have pr: "processResult (cfg\<lparr>useFallback := b\<rparr>) penv obj = processResult cfg penv obj"
    by (simp add: processResult_def Let_def sendToAIEndpoint_ignores_useFallback
          sendToGHService_ignores_useFallback split: sum.splits)
  with fallback_updates[of "cfg\<lparr>useFallback := False\<rparr>" env files solution]
  show ?thesis
    by (simp add: sendToAIEndpoint_ignores_useFallback)
qed

theorem useFallback_witness:
  "ai_fallback (sendToAIEndpoint (default_config\<lparr>useFallback := False\<rparr>) unhealthy_env
                  [(''deployment.yaml'', deployment_128Mi)] oom_solution) \<and>
   ai_updates (sendToAIEndpoint (default_config\<lparr>useFallback := False\<rparr>) unhealthy_env
                  [(''deployment.yaml'', deployment_128Mi)] oom_solution)
     = generateLocalFallbackResponse oom_solution [(''deployment.yaml'', deployment_128Mi)]"
proof -
  have fb: "ai_fallback (sendToAIEndpoint (default_config\<lparr>useFallback := False\<rparr>) unhealthy_env
                  [(''deployment.yaml'', deployment_128Mi)] oom_solution)"
    by (simp add: sendToAIEndpoint_def default_config_def unhealthy_env_def)
  with useFallback_has_no_effect[where cfg = default_config and b = False and env = unhealthy_env
         and files = "[(''deployment.yaml'', deployment_128Mi)]" and solution = oom_solution]
  show ?thesis by blast
qed

section \<open>The rate-limit retry of the file fetch\<close>

lemma untilReset_bounds: "- (2 ^ 63) \<le> untilReset r n \<and> untilReset r n < 2 ^ 63"
  by (simp add: untilReset_def Let_def)

lemma rateLimitSleep_cases:
  "rateLimitSleep resp now i = 2 ^ i * Second \<or>
   (Second < rateLimitSleep resp now i \<and> rateLimitSleep resp now i < 5 * Minute + Second)"
  by (auto simp: rateLimitSleep_def Let_def split: option.splits)

lemma rateLimitSleep_unusable:
  "gh_rate_reset resp = [] \<or> ParseInt64 (gh_rate_reset resp) = None \<or>
   (\<exists>t. ParseInt64 (gh_rate_reset resp) = Some t \<and> \<not> (0 < untilReset t now \<and> untilReset t now < 5 * Minute))
   \<Longrightarrow> rateLimitSleep resp now i = 2 ^ i * Second"
  by (auto simp: rateLimitSleep_def Let_def split: option.splits)

lemma retryLoop_sleeps:
  "k < length (fst (retryLoop env i n lastResp)) \<Longrightarrow>
     \<exists>resp. fe_attempt env (i + k) = Got resp \<and> rateLimited resp \<and>
            fst (retryLoop env i n lastResp) ! k = rateLimitSleep resp (fe_clock env (i + k)) (i + k)"
proof (induction n arbitrary: i k lastResp)
  case 0
  then show ?case by simp
next
  case (Suc n)
  show ?case
  proof (cases "fe_attempt env i")
    case (DoFailed e)
    with Suc.prems show ?thesis by simp
  next
    case (Got resp)
    show ?thesis
    proof (cases "rateLimited resp")
      case False
      with Got Suc.prems show ?thesis by simp
    next
      case True
      show ?thesis
      proof (cases k)
        case 0
        with Got True show ?thesis by (simp add: Let_def)
      next
        case (Suc k')
        with Suc.prems Got True have "k' < length (fst (retryLoop env (Suc i) n (Some (resp, True))))"
          by (simp add: Let_def)
        from Suc.IH[OF this] Got True Suc show ?thesis by (simp add: Let_def)
      qed
    qed
  qed
qed

lemma retryLoop_length: "length (fst (retryLoop env i n lastResp)) \<le> n"
  by (induction n arbitrary: i lastResp) (auto simp: Let_def split: gh_attempt.splits)

lemma retryLoop_exhausted:
  "(\<forall>k < n. \<exists>resp. fe_attempt env (i + k) = Got resp \<and> rateLimited resp) \<Longrightarrow> 0 < n \<Longrightarrow>
     length (fst (retryLoop env i n lastResp)) = n \<and>
     (\<exists>resp. snd (retryLoop env i n lastResp) = Inr (Some (resp, True)) \<and> rateLimited resp)"
proof (induction n arbitrary: i lastResp)
  case 0
  then show ?case by simp
next
  case (Suc n)
  from Suc.prems(1)[rule_format, of 0] obtain resp where r: "fe_attempt env i = Got resp" "rateLimited resp"
    by auto
  show ?case
  proof (cases n)
    case 0
    with r show ?thesis by (simp add: Let_def)
  next
    case (Suc m)
    have "\<forall>k < n. \<exists>resp. fe_attempt env (Suc i + k) = Got resp \<and> rateLimited resp"
      using Suc.prems(1) by (metis Suc_less_eq add_Suc_shift)
    from Suc.IH[OF this, of "Some (resp, True)"] Suc r show ?thesis by (simp add: Let_def)
  qed
qed


lemma retryLoop_attempts:
  "(\<forall>k < n. fe_attempt env' (i + k) = fe_attempt env (i + k)) \<Longrightarrow> fe_clock env' = fe_clock env \<Longrightarrow>
     retryLoop env' i n lastResp = retryLoop env i n lastResp"
proof (induction n arbitrary: i lastResp)
  case 0
  then show ?case by simp
next
  case (Suc n)
  from Suc.prems(1)[rule_format, of 0] have a: "fe_attempt env' i = fe_attempt env i" by simp
  have "\<forall>k < n. fe_attempt env' (Suc i + k) = fe_attempt env (Suc i + k)"
    using Suc.prems(1) by (metis Suc_less_eq add_Suc_shift)
  from Suc.IH[OF this Suc.prems(2)] a Suc.prems(2) show ?case
    by (simp add: Let_def split: gh_attempt.splits)
qed

lemma wrap64_plain: "- (2 ^ 63) \<le> x \<Longrightarrow> x < 2 ^ 63 \<Longrightarrow> wrap64 x = x"
proof -
  assume "- (2 ^ 63) \<le> x" "x < 2 ^ 63"
  then have "0 \<le> x + 2 ^ 63" "x + 2 ^ 63 < 2 ^ 64" by simp_all
  then have "(x + 2 ^ 63) mod 2 ^ 64 = x + 2 ^ 63" by (rule mod_pos_pos_trivial)
  then show ?thesis by (simp add: wrap64_def)
qed

lemma untilReset_plain:
  assumes "0 \<le> t" "t < 2 ^ 62" "- (2 ^ 63) \<le> t * Second - now" "t * Second - now < 2 ^ 63"
  shows "untilReset t now = t * Second - now"
proof -
  from assms(1,2) have "wrap64 (t + 62135596800) = t + 62135596800"
    by (intro wrap64_plain) simp_all
  with assms(3,4) show ?thesis
    by (simp add: untilReset_def Let_def)
qed

text \<open>
  Claim C5, as the code has it. When the request can be built, \<open>fetchFileContent\<close>
  sleeps at most three times; the \<open>k\<close>-th sleep follows a rate-limited response and is
  what \<open>rateLimitSleep\<close> gives for it. With a usable hint, that is a reset header
  holding a number whose distance from the clock is above 0 and below 5 minutes, the sleep
  is that distance plus one second, hence below 5 minutes plus one second; the distance
  is the reset time minus the clock as long as nothing overflows. Without a usable hint
  (no header, no number, or a distance outside that range) the sleep is \<open>2^k\<close> seconds
  (1 s, 2 s, 4 s). Only the first three answers of the host matter, and when all three
  are rate-limited the caller gets the error of status 403.
\<close>

theorem rate_limit_retry_bounds:
  "fe_newRequestErr env = None \<Longrightarrow>
     length (fst (fetchFileContent env)) \<le> 3 \<and>
     (\<forall>k < length (fst (fetchFileContent env)).
         (\<exists>resp. fe_attempt env k = Got resp \<and> rateLimited resp \<and>
                 fst (fetchFileContent env) ! k = rateLimitSleep resp (fe_clock env k) k) \<and>
         (fst (fetchFileContent env) ! k = 2 ^ k * Second \<or>
          (Second < fst (fetchFileContent env) ! k \<and>
           fst (fetchFileContent env) ! k < 5 * Minute + Second))) \<and>
     (\<forall>resp now i.
         gh_rate_reset resp = [] \<or> ParseInt64 (gh_rate_reset resp) = None \<or>
         (\<exists>t. ParseInt64 (gh_rate_reset resp) = Some t \<and>
              \<not> (0 < untilReset t now \<and> untilReset t now < 5 * Minute))
         \<longrightarrow> rateLimitSleep resp now i = 2 ^ i * Second) \<and>
     (\<forall>resp now i t.
         gh_rate_reset resp \<noteq> [] \<and> ParseInt64 (gh_rate_reset resp) = Some t \<and>
         0 < untilReset t now \<and> untilReset t now < 5 * Minute
         \<longrightarrow> rateLimitSleep resp now i = untilReset t now + Second) \<and>
     (\<forall>t now. 0 \<le> t \<and> t < 2 ^ 62 \<and> - (2 ^ 63) \<le> t * Second - now \<and> t * Second - now < 2 ^ 63
         \<longrightarrow> untilReset t now = t * Second - now) \<and>
     (\<forall>f. (\<forall>k < 3. f k = fe_attempt env k) \<longrightarrow>
          fetchFileContent (env\<lparr>fe_attempt := f\<rparr>) = fetchFileContent env) \<and>
     ((\<forall>k < 3. \<exists>resp. fe_attempt env k = Got resp \<and> rateLimited resp) \<longrightarrow>
        length (fst (fetchFileContent env)) = 3 \<and>
        snd (fetchFileContent env) = Inl ''GitHub API error (status 403): '')"
proof -
  assume ok: "fe_newRequestErr env = None"
  then have sl: "fst (fetchFileContent env) = fst (retryLoop env 0 3 None)"
    by (simp add: fetchFileContent_def maxRetries_def Let_def)
  have len: "length (fst (fetchFileContent env)) \<le> 3"
    unfolding sl by (rule retryLoop_length)
  have each: "(\<exists>resp. fe_attempt env k = Got resp \<and> rateLimited resp \<and>
                 fst (fetchFileContent env) ! k = rateLimitSleep resp (fe_clock env k) k) \<and>
         (fst (fetchFileContent env) ! k = 2 ^ k * Second \<or>
          (Second < fst (fetchFileContent env) ! k \<and>
           fst (fetchFileContent env) ! k < 5 * Minute + Second))"
    if "k < length (fst (fetchFileContent env))" for k
  proof -
    from that retryLoop_sleeps[of k env 0 3 None] obtain resp where
      r: "fe_attempt env k = Got resp" "rateLimited resp"
         "fst (fetchFileContent env) ! k = rateLimitSleep resp (fe_clock env k) k"
      unfolding sl by auto
    with rateLimitSleep_cases[of resp "fe_clock env k" k] show ?thesis by auto
  qed
  have unusable: "\<forall>resp now i.
         gh_rate_reset resp = [] \<or> ParseInt64 (gh_rate_reset resp) = None \<or>
         (\<exists>t. ParseInt64 (gh_rate_reset resp) = Some t \<and>
              \<not> (0 < untilReset t now \<and> untilReset t now < 5 * Minute))
         \<longrightarrow> rateLimitSleep resp now i = 2 ^ i * Second"
    by (intro allI impI) (rule rateLimitSleep_unusable)
  have usable: "\<forall>resp now i t.
         gh_rate_reset resp \<noteq> [] \<and> ParseInt64 (gh_rate_reset resp) = Some t \<and>
         0 < untilReset t now \<and> untilReset t now < 5 * Minute
         \<longrightarrow> rateLimitSleep resp now i = untilReset t now + Second"
    by (simp add: rateLimitSleep_def Let_def)
  have until: "\<forall>t now. 0 \<le> t \<and> t < 2 ^ 62 \<and> - (2 ^ 63) \<le> t * Second - now \<and> t * Second - now < 2 ^ 63
         \<longrightarrow> untilReset t now = t * Second - now"
    using untilReset_plain by blast
  have three: "fetchFileContent (env\<lparr>fe_attempt := f\<rparr>) = fetchFileContent env"
    if "\<forall>k < 3. f k = fe_attempt env k" for f
  proof -
    from that have rl: "retryLoop (env\<lparr>fe_attempt := f\<rparr>) 0 3 None = retryLoop env 0 3 None"
      by (intro retryLoop_attempts) simp_all
    have rf: "readFile (env\<lparr>fe_attempt := f\<rparr>) = readFile env"
      by (rule ext) (simp add: readFile_def split: option.splits prod.splits sum.splits)
    show ?thesis unfolding fetchFileContent_def maxRetries_def rl rf by simp
  qed
  have exhausted: "length (fst (fetchFileContent env)) = 3 \<and>
        snd (fetchFileContent env) = Inl ''GitHub API error (status 403): ''"
    if "\<forall>k < 3. \<exists>resp. fe_attempt env k = Got resp \<and> rateLimited resp"
  proof -
    from that have "\<forall>k < 3. \<exists>resp. fe_attempt env (0 + k) = Got resp \<and> rateLimited resp" by simp
    from retryLoop_exhausted[OF this, of None] obtain resp where
      l: "length (fst (retryLoop env 0 3 None)) = 3" and
      r: "snd (retryLoop env 0 3 None) = Inr (Some (resp, True))" "rateLimited resp"
      by auto
    have s403: "show_int 403 = ''403''" by code_simp
    from r(2) have "gh_status resp = 403" by (simp add: rateLimited_def)
    with ok r(1) have "snd (fetchFileContent env) = Inl ''GitHub API error (status 403): ''"
      by (simp add: fetchFileContent_def maxRetries_def Let_def readFile_def s403)
    with l sl show ?thesis by simp
  qed
  from each have each': "\<forall>k < length (fst (fetchFileContent env)).
         (\<exists>resp. fe_attempt env k = Got resp \<and> rateLimited resp \<and>
                 fst (fetchFileContent env) ! k = rateLimitSleep resp (fe_clock env k) k) \<and>
         (fst (fetchFileContent env) ! k = 2 ^ k * Second \<or>
          (Second < fst (fetchFileContent env) ! k \<and>
           fst (fetchFileContent env) ! k < 5 * Minute + Second))"
    by (intro allI impI)
  from three have three': "\<forall>f. (\<forall>k < 3. f k = fe_attempt env k) \<longrightarrow>
          fetchFileContent (env\<lparr>fe_attempt := f\<rparr>) = fetchFileContent env"
    by (intro allI impI)
  from exhausted have exhausted': "(\<forall>k < 3. \<exists>resp. fe_attempt env k = Got resp \<and> rateLimited resp) \<longrightarrow>
        length (fst (fetchFileContent env)) = 3 \<and>
        snd (fetchFileContent env) = Inl ''GitHub API error (status 403): ''"
    by (intro impI)
  from len each' unusable usable until three' exhausted' show ?thesis
    by (intro conjI)
qed

theorem rate_limit_retry_witness:
  "fe_newRequestErr no_hint_env = None \<and>
   fetchFileContent no_hint_env
     = ([Second, 2 * Second, 4 * Second], Inl ''GitHub API error (status 403): '') \<and>
   fetchFileContent near_reset_env
     = ([31 * Second, 21 * Second, 11 * Second], Inl ''GitHub API error (status 403): '') \<and>
   length (fst (fetchFileContent no_hint_env)) \<le> 3 \<and>
   length (fst (fetchFileContent near_reset_env)) \<le> 3"
proof -
  have ok: "fe_newRequestErr no_hint_env = None" by (simp add: no_hint_env_def)
  have ok': "fe_newRequestErr near_reset_env = None" by (simp add: near_reset_env_def)
  have ev: "fetchFileContent no_hint_env
     = ([Second, 2 * Second, 4 * Second], Inl ''GitHub API error (status 403): '')"
    by code_simp
  have ev': "fetchFileContent near_reset_env
     = ([31 * Second, 21 * Second, 11 * Second], Inl ''GitHub API error (status 403): '')"
    by code_simp
  from rate_limit_retry_bounds[OF ok]
  have "length (fst (fetchFileContent no_hint_env)) \<le> 3" by (rule conjunct1)
  moreover from rate_limit_retry_bounds[OF ok']
  have "length (fst (fetchFileContent near_reset_env)) \<le> 3" by (rule conjunct1)
  ultimately show ?thesis using ok ev ev' by simp
qed

text \<open>
  The claim as the specification states it fails: with a reset announced 299.5 seconds
  ahead the first sleep is 300.5 seconds, longer than 5 minutes.
\<close>

theorem rate_limit_sleep_counterexample:
  "fst (fetchFileContent slow_reset_env) ! 0 = 300500000000 \<and>
   fst (fetchFileContent slow_reset_env) ! 0 > 5 * Minute"
  by code_simp


section \<open>The retry policy of the inference call\<close>

lemma Contains_prefix: "Contains (p @ s) p"
proof (cases "p @ s")
  case Nil
  then show ?thesis by (simp add: Contains_def)
next
  case (Cons a l)
  have "prefix p (a # l)" unfolding Cons[symmetric] by simp
  then show ?thesis unfolding Cons by (simp add: Contains_def)
qed

lemma Contains_append_right: "Contains b p \<Longrightarrow> Contains (a @ b) p"
  by (induction a) (auto simp: Contains_def)

lemma Contains_skip: "p \<noteq> [] \<Longrightarrow> hd p \<notin> set a \<Longrightarrow> Contains (a @ b) p \<longleftrightarrow> Contains b p"
proof (induction a)
  case Nil
  then show ?case by simp
next
  case (Cons c a)
  then have "\<not> prefix p (c # a @ b)" by (cases p) auto
  with Cons show ?case by (simp add: Contains_def)
qed

lemma prefix_before_char:
  assumes "c \<notin> set p"
  shows "prefix p (a @ c # b) \<longleftrightarrow> prefix p a"
proof
  assume "prefix p (a @ c # b)"
  then obtain z where z: "a @ c # b = p @ z" by (auto simp: prefix_def)
  show "prefix p a"
  proof (cases "length p \<le> length a")
    case True
    with z have "p = take (length p) a" by (metis append_eq_conv_conj take_append diff_is_0_eq take_0 append_Nil2)
    then show ?thesis by (metis take_is_prefix)
  next
    case False
    then have "length a < length p" by simp
    with z have "p ! length a = c"
      by (metis nth_append nth_append_length)
    with \<open>length a < length p\<close> assms show ?thesis by (metis nth_mem)
  qed
next
  assume "prefix p a"
  then show "prefix p (a @ c # b)" by (rule prefix_prefix)
qed

lemma Contains_split_at:
  assumes "c \<notin> set p" "p \<noteq> []"
  shows "Contains (a @ c # b) p \<longleftrightarrow> Contains a p \<or> Contains b p"
proof (induction a)
  case Nil
  from assms have "\<not> prefix p (c # b)" by (cases p) auto
  moreover from assms have "\<not> Contains [] p" by (simp add: Contains_def)
  ultimately show ?case by (simp add: Contains_def)
next
  case (Cons x a)
  have "prefix p (x # a @ c # b) \<longleftrightarrow> prefix p (x # a)"
    using prefix_before_char[OF assms(1), of "x # a" b] by simp
  with Cons show ?case by (auto simp: Contains_def)
qed


lemma status_error_text:
  "nonRetryable (''received non-success status code '' @ show_int c @ '': '' @ body)
     \<longleftrightarrow> (\<forall>p \<in> set retryableStatuses. \<not> Contains (show_int c @ '': '' @ body) p)"
proof -
  have ph: "Contains (''received non-success status code '' @ r) ''received non-success status code''" for r
    using Contains_prefix[of "''received non-success status code''" "'' '' @ r"] by simp
  have sk: "Contains (''received non-success status code '' @ r) p \<longleftrightarrow> Contains r p"
    if "p \<in> set retryableStatuses" for p r
    using that by (intro Contains_skip) (auto simp: retryableStatuses_def)
  show ?thesis
    unfolding nonRetryable_def using ph sk by (simp add: retryableStatuses_def)
qed

lemma send_error_text:
  "\<not> Contains e ''received non-success status code'' \<Longrightarrow>
     \<not> Contains (''failed to send HTTP request: '' @ e) ''received non-success status code''"
  by (simp add: Contains_def)

lemma timeout_error_text:
  assumes "\<not> Contains e ''received non-success status code''"
    "\<not> Contains dur ''received non-success status code''"
  shows "\<not> Contains (''request timed out after '' @ dur @ '': '' @ e) ''received non-success status code''"
proof -
  have 1: "Contains (''request timed out after '' @ dur) ''received non-success status code''
             \<longleftrightarrow> Contains dur ''received non-success status code''"
    by (simp add: Contains_def)
  have 2: "Contains ('' '' @ e) ''received non-success status code''
             \<longleftrightarrow> Contains e ''received non-success status code''"
    by (simp add: Contains_def)
  have "Contains ((''request timed out after '' @ dur) @ CHR '':'' # ('' '' @ e)) ''received non-success status code''
          \<longleftrightarrow> Contains (''request timed out after '' @ dur) ''received non-success status code''
               \<or> Contains ('' '' @ e) ''received non-success status code''"
    by (rule Contains_split_at) simp_all
  with 1 2 assms show ?thesis by simp
qed

lemma parse_error_text:
  "\<not> Contains e ''received non-success status code'' \<Longrightarrow>
     \<not> Contains (''failed to parse response: '' @ e) ''received non-success status code''"
  by (simp add: Contains_def)

lemma backoffTime_le: "backoffTime attempt \<le> 30 * Second"
  by (simp add: backoffTime_def Let_def)

lemma aiLoop_calls_le: "fst (aiLoop env a n) \<le> n"
  by (induction n arbitrary: a) (auto simp: Let_def split: sum.splits)

lemma aiLoop_calls_pos: "0 < n \<Longrightarrow> 0 < fst (aiLoop env a n)"
  by (cases n) (auto simp: Let_def split: sum.splits)

lemma aiLoop_sleeps_le: "d \<in> set (fst (snd (aiLoop env a n))) \<Longrightarrow> d \<le> 30 * Second"
proof (induction n arbitrary: a)
  case 0
  then show ?case by simp
next
  case (Suc n)
  then show ?case
    using backoffTime_le[of a]
    by (auto simp: Let_def split: sum.splits if_splits)
qed

lemma aiLoop_retry:
  "retryableFailure env a \<Longrightarrow>
     aiLoop env a (Suc n) =
       (Suc (fst (aiLoop env (Suc a) n)),
        (if a > 0 then [backoffTime a] else []) @ fst (snd (aiLoop env (Suc a) n)),
        snd (snd (aiLoop env (Suc a) n)))"
  by (auto simp: retryableFailure_def attemptResult_def Let_def split: sum.splits)

lemma aiLoop_terminal:
  "attemptResult env a = Inl err \<Longrightarrow> nonRetryable err \<Longrightarrow>
     fst (aiLoop env a (Suc n)) = 1 \<and> snd (snd (aiLoop env a (Suc n))) = NonRetryableError"
  by (simp add: attemptResult_def Let_def)

lemma aiLoop_skip:
  "(\<forall>j < k. retryableFailure env (a + j)) \<Longrightarrow> k \<le> n \<Longrightarrow>
     fst (aiLoop env a n) = k + fst (aiLoop env (a + k) (n - k)) \<and>
     snd (snd (aiLoop env a n)) = snd (snd (aiLoop env (a + k) (n - k)))"
proof (induction k arbitrary: a n)
  case 0
  then show ?case by simp
next
  case (Suc k)
  from Suc.prems(2) obtain m where n: "n = Suc m" by (cases n) auto
  from Suc.prems(1) have r0: "retryableFailure env a" by (metis add_0_right zero_less_Suc)
  have "\<forall>j < k. retryableFailure env (Suc a + j)"
    using Suc.prems(1) by (metis Suc_less_eq add_Suc_shift)
  moreover from Suc.prems(2) n have "k \<le> m" by simp
  ultimately have IH: "fst (aiLoop env (Suc a) m) = k + fst (aiLoop env (Suc a + k) (m - k)) \<and>
     snd (snd (aiLoop env (Suc a) m)) = snd (snd (aiLoop env (Suc a + k) (m - k)))"
    by (rule Suc.IH)
  show ?case
    unfolding n aiLoop_retry[OF r0] using IH by simp
qed


lemma backoffTime_exponential:
  assumes "a \<le> 33"
  shows "backoffTime a = min (2 ^ a * Second) (30 * Second)"
proof -
  from assms have "(2::int) ^ a \<le> 2 ^ 33" by (intro power_increasing) simp_all
  then have "(2::int) ^ a * Second \<le> 2 ^ 33 * Second" by (simp add: Second_def)
  then have up: "(2::int) ^ a * Second < 2 ^ 63" by (simp add: Second_def)
  have "(0::int) \<le> 2 ^ a * Second" by (simp add: Second_def)
  then have "- (2 ^ 63) \<le> (2::int) ^ a * Second" by simp
  from wrap64_plain[OF this up] show ?thesis
    by (simp add: backoffTime_def Let_def min_def)
qed

lemma aiLoop_sleeps_exact:
  "fst (snd (aiLoop env a n)) = map backoffTime [max a 1 ..< a + fst (aiLoop env a n)]"
proof (induction n arbitrary: a)
  case 0
  then show ?case by simp
next
  case (Suc n)
  have one: "(if a > 0 then [backoffTime a] else []) = map backoffTime [max a 1 ..< a + 1]"
    by (cases a) (simp_all add: max_def)
  show ?case
  proof (cases "retryableFailure env a")
    case True
    have "[max a 1 ..< a + Suc (fst (aiLoop env (Suc a) n))]
            = [max a 1 ..< a + 1] @ [Suc a ..< Suc a + fst (aiLoop env (Suc a) n)]"
      by (cases a) (simp_all add: max_def upt_rec[of "Suc _" "Suc (Suc _ + _)"] upt_conv_Cons)
    then show ?thesis
      unfolding aiLoop_retry[OF True] using Suc.IH[of "Suc a"] one by (simp add: max_def)
  next
    case False
    then have "fst (aiLoop env a (Suc n)) = 1 \<and>
               fst (snd (aiLoop env a (Suc n))) = (if a > 0 then [backoffTime a] else [])"
      by (auto simp: retryableFailure_def attemptResult_def Let_def split: sum.splits)
    with one show ?thesis by simp
  qed
qed

lemma sendToAIEndpoint_loop:
  assumes "\<not> aiHealthCheck cfg \<or> ae_healthy env"
  shows "ai_calls (sendToAIEndpoint cfg env files solution) = fst (aiLoop env 0 (nat (aiMaxRetries cfg)))"
    and "ai_sleeps (sendToAIEndpoint cfg env files solution) = fst (snd (aiLoop env 0 (nat (aiMaxRetries cfg))))"
    and "snd (snd (aiLoop env 0 (nat (aiMaxRetries cfg)))) = NonRetryableError \<Longrightarrow>
           ai_fallback (sendToAIEndpoint cfg env files solution) \<and>
           ai_updates (sendToAIEndpoint cfg env files solution) = generateLocalFallbackResponse solution files"
  using assms
  by (auto simp: sendToAIEndpoint_def Let_def split: loop_result.splits option.splits sum.splits)

lemma retryable_status:
  assumes "ae_exchange env k = Responded c body" "c \<in> {429, 500, 502, 503, 504}"
  shows "retryableFailure env k"
proof -
  have sh: "show_int 429 = ''429''" "show_int 500 = ''500''" "show_int 502 = ''502''"
    "show_int 503 = ''503''" "show_int 504 = ''504''"
    by code_simp+
  from assms(2) have "show_int c \<in> set retryableStatuses"
    by (auto simp: retryableStatuses_def sh)
  moreover have "Contains (show_int c @ '': '' @ body) (show_int c)"
    by (rule Contains_prefix)
  ultimately have "\<not> nonRetryable (''received non-success status code '' @ show_int c @ '': '' @ body)"
    unfolding status_error_text by blast
  moreover from assms(2) have "c < 200 \<or> c \<ge> 300" by auto
  ultimately show ?thesis
    using assms(1) by (simp add: retryableFailure_def attemptResult_def tryAIEndpoint_def)
qed

lemma retryable_send_failure:
  assumes "ae_exchange env k = SendFailed dl dur e"
    "\<not> Contains e ''received non-success status code''"
    "\<not> Contains dur ''received non-success status code''"
  shows "retryableFailure env k"
  using assms send_error_text[of e] timeout_error_text[of e dur]
  by (simp add: retryableFailure_def attemptResult_def tryAIEndpoint_def nonRetryable_def)

lemma retryable_parse_failure:
  assumes "ae_exchange env k = Responded c body" "200 \<le> c" "c < 300"
    "ae_decode env body = Inl e" "\<not> Contains e ''received non-success status code''"
  shows "retryableFailure env k"
  using assms parse_error_text[of e]
  by (simp add: retryableFailure_def attemptResult_def tryAIEndpoint_def nonRetryable_def)

lemma terminal_status:
  assumes "ae_exchange env k = Responded c body" "c < 200 \<or> 300 \<le> c"
    "\<forall>p \<in> set retryableStatuses. \<not> Contains (show_int c @ '': '' @ body) p"
  shows "\<exists>err. attemptResult env k = Inl err \<and> nonRetryable err"
  using assms status_error_text[of c body]
  by (auto simp: attemptResult_def tryAIEndpoint_def)

text \<open>
  Claim C6, as the code has it. Once the health gate is passed, \<open>sendToAIEndpoint\<close>
  calls the endpoint at most \<open>aiMaxRetries\<close> times (3 by default). It sleeps once
  before every attempt but the first: before attempt \<open>a\<close> the sleep is \<open>backoffTime a\<close>,
  which for \<open>a\<close> up to 33 is \<open>2^a\<close> seconds capped at 30 seconds (2 s, 4 s, 8 s, 16 s,
  then 30 s), and is never above 30 seconds. If the attempts before attempt \<open>k\<close> failed
  and were retried, attempt \<open>k\<close> is made, and it is retried while attempts remain
  whenever it fails and the retry test lets it through: this is the case for a response
  with status 429, 500, 502, 503 or 504, for a failure of the request itself, and
  for a 2xx response whose body cannot be decoded (unless the error text itself reads as
  a status failure). A response with a non-success status is terminal, and the result is
  the local fallback at once, when the text made of the status and the body contains none
  of the five numbers.
\<close>

theorem ai_retry_policy:
  "\<not> aiHealthCheck cfg \<or> ae_healthy env \<Longrightarrow> k < nat (aiMaxRetries cfg) \<Longrightarrow>
   (\<forall>j < k. retryableFailure env j) \<Longrightarrow>
     ai_calls (sendToAIEndpoint cfg env files solution) \<le> nat (aiMaxRetries cfg) \<and>
     (\<forall>d \<in> set (ai_sleeps (sendToAIEndpoint cfg env files solution)). d \<le> 30 * Second) \<and>
     ai_sleeps (sendToAIEndpoint cfg env files solution)
       = map backoffTime [1 ..< ai_calls (sendToAIEndpoint cfg env files solution)] \<and>
     (\<forall>a \<le> 33. backoffTime a = min (2 ^ a * Second) (30 * Second)) \<and>
     Suc k \<le> ai_calls (sendToAIEndpoint cfg env files solution) \<and>
     (retryableFailure env k \<and> Suc k < nat (aiMaxRetries cfg) \<longrightarrow>
        Suc (Suc k) \<le> ai_calls (sendToAIEndpoint cfg env files solution)) \<and>
     (\<forall>c body. ae_exchange env k = Responded c body \<and> c \<in> {429, 500, 502, 503, 504} \<longrightarrow>
        retryableFailure env k) \<and>
     (\<forall>dl dur e. ae_exchange env k = SendFailed dl dur e
          \<and> \<not> Contains e ''received non-success status code''
          \<and> \<not> Contains dur ''received non-success status code'' \<longrightarrow>
        retryableFailure env k) \<and>
     (\<forall>c body e. ae_exchange env k = Responded c body \<and> 200 \<le> c \<and> c < 300
          \<and> ae_decode env body = Inl e \<and> \<not> Contains e ''received non-success status code'' \<longrightarrow>
        retryableFailure env k) \<and>
     (\<forall>c body. ae_exchange env k = Responded c body \<and> (c < 200 \<or> 300 \<le> c)
          \<and> (\<forall>p \<in> set retryableStatuses. \<not> Contains (show_int c @ '': '' @ body) p) \<longrightarrow>
        ai_calls (sendToAIEndpoint cfg env files solution) = Suc k \<and>
        ai_fallback (sendToAIEndpoint cfg env files solution) \<and>
        ai_updates (sendToAIEndpoint cfg env files solution)
          = generateLocalFallbackResponse solution files)"
proof -
  let ?n = "nat (aiMaxRetries cfg)"
  let ?r = "sendToAIEndpoint cfg env files solution"
  assume gate: "\<not> aiHealthCheck cfg \<or> ae_healthy env" and k: "k < ?n"
    and before: "\<forall>j < k. retryableFailure env j"
  note loop = sendToAIEndpoint_loop[OF gate, of files solution]
  from before have before': "\<forall>j < k. retryableFailure env (0 + j)" by simp
  from k have kn: "k \<le> ?n" by simp
  from aiLoop_skip[OF before' kn]
  have skip: "fst (aiLoop env 0 ?n) = k + fst (aiLoop env k (?n - k))"
    "snd (snd (aiLoop env 0 ?n)) = snd (snd (aiLoop env k (?n - k)))"
    by simp_all
  from k obtain m where m: "?n - k = Suc m" by (cases "?n - k") auto
  have c1: "ai_calls ?r \<le> ?n"
    unfolding loop(1) by (rule aiLoop_calls_le)
  have c2: "\<forall>d \<in> set (ai_sleeps ?r). d \<le> 30 * Second"
    unfolding loop(2) using aiLoop_sleeps_le by blast
  have c2a: "ai_sleeps ?r = map backoffTime [1 ..< ai_calls ?r]"
    unfolding loop(1) loop(2) using aiLoop_sleeps_exact[of env 0 ?n] by simp
  have c2b: "\<forall>a \<le> 33. backoffTime a = min (2 ^ a * Second) (30 * Second)"
    using backoffTime_exponential by blast
  have c3: "Suc k \<le> ai_calls ?r"
    unfolding loop(1) skip(1) m using aiLoop_calls_pos[of "Suc m" env k] by simp
  have c4: "retryableFailure env k \<and> Suc k < ?n \<longrightarrow> Suc (Suc k) \<le> ai_calls ?r"
  proof
    assume a: "retryableFailure env k \<and> Suc k < ?n"
    with m obtain m' where m': "m = Suc m'" by (cases m) auto
    from a have "fst (aiLoop env k (Suc m)) = Suc (fst (aiLoop env (Suc k) m))"
      by (simp add: aiLoop_retry del: aiLoop.simps)
    moreover have "0 < fst (aiLoop env (Suc k) m)"
      unfolding m' by (rule aiLoop_calls_pos) simp
    ultimately show "Suc (Suc k) \<le> ai_calls ?r"
      unfolding loop(1) skip(1) m by simp
  qed
  have c5: "\<forall>c body. ae_exchange env k = Responded c body \<and> c \<in> {429, 500, 502, 503, 504} \<longrightarrow>
        retryableFailure env k"
    using retryable_status by blast
  have c6: "\<forall>dl dur e. ae_exchange env k = SendFailed dl dur e
          \<and> \<not> Contains e ''received non-success status code''
          \<and> \<not> Contains dur ''received non-success status code'' \<longrightarrow>
        retryableFailure env k"
    using retryable_send_failure by blast
  have c7: "\<forall>c body e. ae_exchange env k = Responded c body \<and> 200 \<le> c \<and> c < 300
          \<and> ae_decode env body = Inl e \<and> \<not> Contains e ''received non-success status code'' \<longrightarrow>
        retryableFailure env k"
    using retryable_parse_failure by blast
  have c8: "\<forall>c body. ae_exchange env k = Responded c body \<and> (c < 200 \<or> 300 \<le> c)
          \<and> (\<forall>p \<in> set retryableStatuses. \<not> Contains (show_int c @ '': '' @ body) p) \<longrightarrow>
        ai_calls ?r = Suc k \<and> ai_fallback ?r \<and>
        ai_updates ?r = generateLocalFallbackResponse solution files"
  proof (intro allI impI)
    fix c body
    assume a: "ae_exchange env k = Responded c body \<and> (c < 200 \<or> 300 \<le> c)
          \<and> (\<forall>p \<in> set retryableStatuses. \<not> Contains (show_int c @ '': '' @ body) p)"
    then obtain err where err: "attemptResult env k = Inl err" "nonRetryable err"
      using terminal_status[of env k c body] by blast
    from aiLoop_terminal[OF err, of m]
    have t: "fst (aiLoop env k (Suc m)) = 1" "snd (snd (aiLoop env k (Suc m))) = NonRetryableError"
      by simp_all
    from t(2) have "snd (snd (aiLoop env 0 ?n)) = NonRetryableError"
      unfolding skip(2) m .
    from loop(3)[OF this] t(1) show "ai_calls ?r = Suc k \<and> ai_fallback ?r \<and>
        ai_updates ?r = generateLocalFallbackResponse solution files"
      unfolding loop(1) skip(1) m by simp
  qed
  from c1 c2 c2a c2b c3 c4 c5 c6 c7 c8 show ?thesis by (intro conjI)
qed

theorem ai_retry_witness:
  "ai_calls (sendToAIEndpoint default_config flaky_env [(''deployment.yaml'', deployment_128Mi)] oom_solution) = 2 \<and>
   ai_fallback (sendToAIEndpoint default_config flaky_env [(''deployment.yaml'', deployment_128Mi)] oom_solution) \<and>
   ai_sleeps (sendToAIEndpoint default_config flaky_env [(''deployment.yaml'', deployment_128Mi)] oom_solution)
     = [2 * Second] \<and>
   ai_sleeps (sendToAIEndpoint (default_config\<lparr>aiMaxRetries := 6\<rparr>) busy_env
                [(''deployment.yaml'', deployment_128Mi)] oom_solution)
     = [2 * Second, 4 * Second, 8 * Second, 16 * Second, 30 * Second]"
proof -
  let ?r = "sendToAIEndpoint default_config flaky_env [(''deployment.yaml'', deployment_128Mi)] oom_solution"
  let ?b = "sendToAIEndpoint (default_config\<lparr>aiMaxRetries := 6\<rparr>) busy_env
              [(''deployment.yaml'', deployment_128Mi)] oom_solution"
  have gate: "\<not> aiHealthCheck default_config \<or> ae_healthy flaky_env"
    by (simp add: flaky_env_def)
  have k: "1 < nat (aiMaxRetries default_config)"
    by (simp add: default_config_def)
  have r0: "retryableFailure flaky_env 0"
    by (rule retryable_status[of _ _ 503 "''busy''"]) (simp_all add: flaky_env_def)
  then have before: "\<forall>j < 1. retryableFailure flaky_env j" by simp
  have ex: "ae_exchange flaky_env 1 = Responded 404 ''model not found'' \<and> ((404::int) < 200 \<or> (300::int) \<le> 404)
          \<and> (\<forall>p \<in> set retryableStatuses. \<not> Contains (show_int 404 @ '': '' @ ''model not found'') p)"
    by code_simp
  note pol = ai_retry_policy[OF gate k before, of "[(''deployment.yaml'', deployment_128Mi)]" oom_solution]
  from pol ex have "ai_calls ?r = Suc 1 \<and> ai_fallback ?r" by blast
  moreover from pol have "ai_sleeps ?r = map backoffTime [1 ..< ai_calls ?r]"
    by (elim conjE)
  moreover have "backoffTime 1 = 2 * Second" by code_simp
  ultimately have flaky: "ai_calls ?r = 2 \<and> ai_fallback ?r \<and> ai_sleeps ?r = [2 * Second]"
    by simp
  have "ai_sleeps ?b = [2 * Second, 4 * Second, 8 * Second, 16 * Second, 30 * Second]"
    by code_simp
  with flaky show ?thesis by simp
qed

text \<open>
  The claim as the specification states it fails: the endpoint answers the first
  attempt with HTTP 200 and a body that is no JSON, which is neither a transport failure
  nor one of the five statuses, and the attempt is retried until three calls are made.
\<close>

theorem ai_retry_counterexample:
  "ae_exchange bad_json_env 0 = Responded 200 ''<html>busy</html>'' \<and>
   ai_calls (sendToAIEndpoint default_config bad_json_env [(''deployment.yaml'', deployment_128Mi)] oom_solution) = 3"
  by code_simp

text \<open>
  The test that ends the retries reads the body as well: a 404 answer whose body
  mentions one of the five numbers is retried.
\<close>

lemma retry_test_reads_body:
  "nonRetryable ''received non-success status code 404: model not found'' \<and>
   \<not> nonRetryable ''received non-success status code 404: upstream returned 500''"
  by code_simp

section \<open>Lines, numbers and the rewriting of the limits\<close>


lemma Split_not_Nil: "Split s c \<noteq> []"
  by (induction s) (auto split: list.splits)

lemma Join_Split: "Join (Split s c) c = s"
proof (induction s)
  case Nil
  then show ?case by simp
next
  case (Cons x s)
  obtain l ls where sp: "Split s c = l # ls"
    using Split_not_Nil[of s c] by (cases "Split s c") auto
  show ?case
  proof (cases "x = c")
    case True
    with Cons sp show ?thesis by simp
  next
    case False
    with Cons sp show ?thesis by (cases ls) simp_all
  qed
qed

lemma Split_no_sep: "l \<in> set (Split s c) \<Longrightarrow> c \<notin> set l"
proof (induction s arbitrary: l)
  case Nil
  then show ?case by simp
next
  case (Cons x s)
  obtain l0 ls where sp: "Split s c = l0 # ls"
    using Split_not_Nil[of s c] by (cases "Split s c") auto
  from Cons sp show ?case by (auto split: if_splits)
qed

lemma Split_append_sep:
  "c \<notin> set l \<Longrightarrow> Split (l @ c # s) c = l # Split s c"
  by (induction l) (auto split: list.splits)

lemma Split_no_sep_id: "c \<notin> set l \<Longrightarrow> Split l c = [l]"
  by (induction l) (auto split: list.splits)

lemma Split_Join:
  "ls \<noteq> [] \<Longrightarrow> \<forall>l \<in> set ls. c \<notin> set l \<Longrightarrow> Split (Join ls c) c = ls"
proof (induction ls c rule: Join.induct)
  case (1 sep)
  then show ?case by simp
next
  case (2 l sep)
  then show ?case by (simp add: Split_no_sep_id)
next
  case (3 l l' ls sep)
  then show ?case by (simp add: Split_append_sep)
qed

lemma updateLines_length: "length (updateLines r l n ls) = length ls"
  by (induction ls arbitrary: r l) (simp_all add: Let_def)

lemma updateLines_not_Nil: "ls \<noteq> [] \<Longrightarrow> updateLines r l n ls \<noteq> []"
  using updateLines_length[of r l n ls] by auto

lemma extractIndentation_no_nl: "CHR ''\<newline>'' \<notin> set (extractIndentation line)"
proof -
  have "set (extractIndentation line) \<subseteq> {CHR '' '', CHR 0x09}"
    unfolding extractIndentation_def by (auto dest: set_takeWhileD)
  then show ?thesis by auto
qed

lemma updateLines_no_nl:
  "\<forall>x \<in> set ls. CHR ''\<newline>'' \<notin> set x \<Longrightarrow> CHR ''\<newline>'' \<notin> set n \<Longrightarrow>
     \<forall>x \<in> set (updateLines r l n ls). CHR ''\<newline>'' \<notin> set x"
proof (induction ls arbitrary: r l)
  case Nil
  then show ?case by simp
next
  case (Cons a ls)
  then show ?case
    using extractIndentation_no_nl[of a] by (auto simp: Let_def)
qed



lemma isSpace_indent: "x \<in> set (extractIndentation line) \<Longrightarrow> isSpace x"
  unfolding extractIndentation_def by (auto simp: isSpace_def dest: set_takeWhileD)

lemma dropWhile_stops:
  "\<not> P y \<Longrightarrow> \<exists>zs. dropWhile P (xs @ y # ys) = zs @ y # ys"
proof (induction xs)
  case Nil
  then show ?case by (intro exI[of _ "[]"]) simp
next
  case (Cons a xs)
  then obtain zs where zs: "dropWhile P (xs @ y # ys) = zs @ y # ys" by blast
  show ?case
  proof (cases "P a")
    case True
    with zs show ?thesis by simp
  next
    case False
    then show ?thesis by (intro exI[of _ "a # xs"]) simp
  qed
qed

lemma TrimSpace_rewritten:
  "\<exists>t. TrimSpace (rewritten line n) = ''memory:'' @ t"
proof -
  let ?ws = "extractIndentation line"
  have "dropWhile isSpace (?ws @ ''memory: '' @ n) = ''memory: '' @ n"
    using isSpace_indent[of _ line] by (simp add: dropWhile_append3 isSpace_def)
  moreover have "rev (''memory: '' @ n) = (rev n @ '' '') @ CHR '':'' # ''yromem''"
    by simp
  moreover have "\<not> isSpace CHR '':''" by (simp add: isSpace_def)
  ultimately obtain zs where
    "dropWhile isSpace (rev (dropWhile isSpace (?ws @ ''memory: '' @ n))) = zs @ CHR '':'' # ''yromem''"
    using dropWhile_stops[of isSpace "CHR '':''" "rev n @ '' ''" "''yromem''"] by auto
  then have "TrimSpace (rewritten line n) = ''memory:'' @ rev zs"
    by (simp add: TrimSpace_def rewritten_def)
  then show ?thesis by blast
qed

lemma extractIndentation_rewritten:
  "extractIndentation (rewritten line n) = extractIndentation line"
proof -
  have "takeWhile (\<lambda>c. c = CHR '' '' \<or> c = CHR 0x09) (extractIndentation line @ ''memory: '' @ n)
          = extractIndentation line"
    unfolding extractIndentation_def
    by (subst takeWhile_append2) (auto dest: set_takeWhileD)
  then show ?thesis by (simp add: rewritten_def extractIndentation_def)
qed

lemma rewritten_idem: "rewritten (rewritten line n) n = rewritten line n"
  by (simp add: rewritten_def[of "rewritten line n"] extractIndentation_rewritten) (simp add: rewritten_def)

lemma HasPrefix_char_rewritten:
  assumes "HasPrefix (TrimSpace line) ''memory:''" "c = CHR '' '' \<or> c = CHR 0x09"
  shows "HasPrefix (rewritten line n) [c] \<longleftrightarrow> HasPrefix line [c]"
proof (cases line)
  case Nil
  with assms show ?thesis by (simp add: HasPrefix_def TrimSpace_def)
next
  case (Cons x xs)
  show ?thesis
  proof (cases "x = CHR '' '' \<or> x = CHR 0x09")
    case True
    with Cons show ?thesis
      by (auto simp: HasPrefix_def rewritten_def extractIndentation_def)
  next
    case False
    with Cons assms(2) show ?thesis
      by (auto simp: HasPrefix_def rewritten_def extractIndentation_def)
  qed
qed

lemma updateLines_Cons:
  "updateLines r l n (line # ls) =
     (if rewritesLine r l line then rewritten line n else line)
       # updateLines (fst (flagsAfter r l line)) (snd (flagsAfter r l line)) n ls"
  by (auto simp: rewritesLine_def flagsAfter_def rewritten_def Let_def HasPrefix_def)

lemma rewrites_rewritten:
  assumes "rewritesLine r l line"
  shows "rewritesLine r l (rewritten line n)" and "flagsAfter r l (rewritten line n) = flagsAfter r l line"
proof -
  obtain t where t: "TrimSpace (rewritten line n) = ''memory:'' @ t"
    using TrimSpace_rewritten by blast
  from assms have mem: "HasPrefix (TrimSpace line) ''memory:''"
    by (simp add: rewritesLine_def Let_def)
  have sp: "HasPrefix (rewritten line n) '' '' \<longleftrightarrow> HasPrefix line '' ''"
    "HasPrefix (rewritten line n) [CHR 0x09] \<longleftrightarrow> HasPrefix line [CHR 0x09]"
    using HasPrefix_char_rewritten[OF mem] by simp_all
  from mem have ne: "TrimSpace line \<noteq> []" by (auto simp: HasPrefix_def)
  have pre: "\<not> HasPrefix (''memory:'' @ t) ''resources:''" "\<not> HasPrefix (''memory:'' @ t) ''limits:''"
    "\<not> HasPrefix (''memory:'' @ t) ''requests:''" "HasPrefix (''memory:'' @ t) ''memory:''"
    by (simp_all add: HasPrefix_def)
  from assms show "rewritesLine r l (rewritten line n)"
    unfolding rewritesLine_def Let_def t sp using pre ne by simp
  from assms show "flagsAfter r l (rewritten line n) = flagsAfter r l line"
    unfolding rewritesLine_def flagsAfter_def Let_def t sp using pre ne by simp
qed

lemma updateLines_idem:
  "updateLines r l n (updateLines r l n ls) = updateLines r l n ls"
proof (induction ls arbitrary: r l)
  case Nil
  then show ?case by simp
next
  case (Cons line ls)
  show ?case
  proof (cases "rewritesLine r l line")
    case True
    from rewrites_rewritten[OF True, of n] show ?thesis
      unfolding updateLines_Cons[of r l n line] using True
      by (simp add: updateLines_Cons rewritten_idem Cons.IH del: updateLines.simps)
  next
    case False
    then show ?thesis
      unfolding updateLines_Cons[of r l n line]
      by (simp add: updateLines_Cons Cons.IH del: updateLines.simps)
  qed
qed

lemma updateMemoryLimits_idem:
  assumes "CHR ''\<newline>'' \<notin> set n"
  shows "updateMemoryLimits (updateMemoryLimits content n) n = updateMemoryLimits content n"
proof -
  let ?ls = "Split content CHR ''\<newline>''"
  let ?out = "updateLines False False n ?ls"
  have "\<forall>x \<in> set ?ls. CHR ''\<newline>'' \<notin> set x"
    using Split_no_sep by blast
  then have "\<forall>x \<in> set ?out. CHR ''\<newline>'' \<notin> set x"
    using assms by (rule updateLines_no_nl)
  moreover have "?out \<noteq> []"
    by (rule updateLines_not_Nil) (rule Split_not_Nil)
  ultimately have "Split (Join ?out CHR ''\<newline>'') CHR ''\<newline>'' = ?out"
    by (intro Split_Join)
  then show ?thesis
    by (simp add: updateMemoryLimits_def updateLines_idem)
qed



lemma of_char_digit_nat: "d < 10 \<Longrightarrow> (of_char (char_of (48 + d :: nat)) :: nat) = 48 + d"
  by simp

lemma of_char_digit_int: "d < 10 \<Longrightarrow> (of_char (char_of (48 + d :: nat)) :: int) = 48 + int d"
proof -
  assume d: "d < 10"
  have "(of_char (char_of (48 + d)) :: int) = int (of_char (char_of (48 + d)) :: nat)"
    by (simp add: of_char_def)
  with d show ?thesis by simp
qed

lemma isDigit_digit: "d < 10 \<Longrightarrow> isDigit (char_of (48 + d :: nat))"
  by (simp add: isDigit_def)

lemma show_nat_digits: "list_all isDigit (show_nat n)"
proof (induction n rule: show_nat.induct)
  case (1 n)
  show ?case
  proof (cases "n < 10")
    case True
    then show ?thesis by (subst show_nat.simps) (simp add: isDigit_digit)
  next
    case False
    with 1 show ?thesis by (subst show_nat.simps) (simp add: isDigit_digit)
  qed
qed

lemma digits_value_snoc: "digits_value (s @ [c]) = 10 * digits_value s + ((of_char c :: int) - 48)"
  by (simp add: digits_value_def)

lemma digits_value_show_nat: "digits_value (show_nat n) = int n"
proof (induction n rule: show_nat.induct)
  case (1 n)
  show ?case
  proof (cases "n < 10")
    case True
    then show ?thesis
      by (subst show_nat.simps) (simp add: digits_value_def of_char_digit_int)
  next
    case False
    have "n mod 10 < 10" by simp
    then have "(of_char (char_of (48 + n mod 10)) :: int) = 48 + int (n mod 10)"
      by (rule of_char_digit_int)
    moreover have "10 * int (n div 10) + int (n mod 10) = int n"
      by (metis mult_div_mod_eq of_nat_add of_nat_mult of_nat_numeral)
    ultimately show ?thesis
      using False 1 by (subst show_nat.simps) (simp add: digits_value_snoc)
  qed
qed

lemma takeWhile_digits:
  assumes "u = [] \<or> \<not> isDigit (hd u)"
  shows "takeWhile isDigit (show_nat n @ u) = show_nat n"
    and "dropWhile isDigit (show_nat n @ u) = u"
proof -
  have all: "\<forall>x \<in> set (show_nat n). isDigit x"
    using show_nat_digits[of n] by (simp add: list_all_iff)
  from assms have tu: "takeWhile isDigit u = []" "dropWhile isDigit u = u"
    by (cases u; simp)+
  from all tu show "takeWhile isDigit (show_nat n @ u) = show_nat n"
    by simp
  from all tu show "dropWhile isDigit (show_nat n @ u) = u"
    by simp
qed

lemma Atoi_show_nat: "int n < 2 ^ 63 \<Longrightarrow> Atoi (show_nat n) = Some (int n)"
proof -
  assume b: "int n < 2 ^ 63"
  have d: "list_all isDigit (show_nat n)" by (rule show_nat_digits)
  obtain c r where cr: "show_nat n = c # r"
    using show_nat_not_Nil[of n] by (cases "show_nat n") auto
  from d cr have "isDigit c" by simp
  then have "c \<noteq> CHR ''-''" "c \<noteq> CHR ''+''" by (auto simp: isDigit_def)
  with cr have "(case show_nat n of
                         c # r \<Rightarrow> if c = CHR ''-'' then (True, r)
                                  else if c = CHR ''+'' then (False, r) else (False, show_nat n)
                       | [] \<Rightarrow> (False, show_nat n)) = (False, show_nat n)"
    by simp
  with d b show ?thesis
    by (simp add: Atoi_def ParseInt64_def Let_def digits_value_show_nat show_nat_not_Nil)
qed

lemma parseMemory_show:
  assumes "int n < 2 ^ 63" "u = [] \<or> \<not> isDigit (hd u)"
  shows "parseMemory (show_nat n @ u) = (int n, u)"
  using assms takeWhile_digits[OF assms(2), of n]
  by (simp add: parseMemory_def Let_def Atoi_show_nat show_nat_not_Nil)

lemma newLimitFor_small:
  assumes "n < 64" "u = [] \<or> \<not> isDigit (hd u)"
  shows "newLimitFor (show_nat n @ u) = ''256Mi''"
proof -
  from assms(1) have "int n < 2 ^ 63" by simp
  from parseMemory_show[OF this assms(2)] assms(1) show ?thesis
    by (simp add: newLimitFor_def)
qed

lemma newLimitFor_scaled:
  assumes "64 \<le> n" "int n < 2 ^ 51" "u = [] \<or> \<not> isDigit (hd u)"
  shows "newLimitFor (show_nat n @ u) = show_nat (3 * n div 2) @ u"
proof -
  from assms(2) have "int n < 2 ^ 63" by simp
  from parseMemory_show[OF this assms(3)] have pm: "parseMemory (show_nat n @ u) = (int n, u)" .
  have "nat (3 * int n div 2) = 3 * n div 2"
    by (simp add: nat_div_distrib nat_mult_distrib)
  moreover have "\<not> 3 * int n div 2 < 0" by simp
  ultimately have "show_int (scaleMemory (int n)) = show_nat (3 * n div 2)"
    by (simp add: show_int_def scaleMemory_def)
  with pm assms(1) show ?thesis
    by (simp add: newLimitFor_def)
qed

lemma newLimitFor_no_number:
  assumes "takeWhile isDigit m = []"
  shows "newLimitFor m = ''256Mi''"
proof -
  have "Atoi [] = None" by (simp add: Atoi_def ParseInt64_def)
  with assms have "parseMemory m = (0, [])"
    by (simp add: parseMemory_def Let_def)
  then show ?thesis by (simp add: newLimitFor_def)
qed


section \<open>The fallback heuristic\<close>


lemma fileFallback_iff:
  "u \<in> set (fileFallback (name, content)) \<longleftrightarrow>
     (HasSuffix name ''.yaml'' \<or> HasSuffix name ''.yml'') \<and>
     Contains content ''kind: Deployment'' \<and> deploymentNameOf content \<noteq> [] \<and>
     updateMemoryLimits content (newLimitFor (memoryLimitOf content)) \<noteq> content \<and>
     u = \<lparr>Path = name, Content = updateMemoryLimits content (newLimitFor (memoryLimitOf content))\<rparr>"
  by (auto simp: fileFallback_def Let_def)

lemma fallback_iff:
  "isOOM solution \<Longrightarrow>
     u \<in> set (generateLocalFallbackResponse solution files) \<longleftrightarrow>
       (\<exists>name content. (name, content) \<in> set files \<and> u \<in> set (fileFallback (name, content)))"
  by (auto simp: generateLocalFallbackResponse_def)

lemma updateLines_effect:
  "i < length ls \<Longrightarrow>
     updateLines r l n ls ! i = ls ! i \<or>
     (HasPrefix (TrimSpace (ls ! i)) ''memory:'' \<and>
      updateLines r l n ls ! i = extractIndentation (ls ! i) @ ''memory: '' @ n)"
proof (induction ls arbitrary: r l i)
  case Nil
  then show ?case by simp
next
  case (Cons line ls)
  show ?case
  proof (cases i)
    case 0
    show ?thesis
      unfolding updateLines_Cons 0
      by (auto simp: rewritesLine_def rewritten_def Let_def)
  next
    case (Suc j)
    with Cons.prems have "j < length ls" by simp
    from Cons.IH[OF this] show ?thesis
      unfolding updateLines_Cons Suc by simp
  qed
qed

lemma updateMemoryLimits_lines:
  assumes "CHR ''\<newline>'' \<notin> set n"
  shows "Split (updateMemoryLimits content n) CHR ''\<newline>''
           = updateLines False False n (Split content CHR ''\<newline>'')"
proof -
  let ?ls = "Split content CHR ''\<newline>''"
  let ?out = "updateLines False False n ?ls"
  have "\<forall>x \<in> set ?ls. CHR ''\<newline>'' \<notin> set x"
    using Split_no_sep by blast
  then have "\<forall>x \<in> set ?out. CHR ''\<newline>'' \<notin> set x"
    using assms by (rule updateLines_no_nl)
  moreover have "?out \<noteq> []"
    by (rule updateLines_not_Nil) (rule Split_not_Nil)
  ultimately show ?thesis
    unfolding updateMemoryLimits_def by (intro Split_Join)
qed


text \<open>
  What the heuristic returns. With a solution text that reports an out-of-memory
  condition, every update belongs to a \<open>.yaml\<close> or \<open>.yml\<close> file that contains
  \<open>kind: Deployment\<close> and has a non-empty name after its first \<open>name:\<close>; its content is
  the file rewritten to the target computed from that file, and differs from the file.
  Conversely every such file whose rewriting differs gets its update.
\<close>

lemma fallback_updates_sound:
  assumes "isOOM solution" and "u \<in> set (generateLocalFallbackResponse solution files)"
  shows "\<exists>content. (Path u, content) \<in> set files \<and>
          (HasSuffix (Path u) ''.yaml'' \<or> HasSuffix (Path u) ''.yml'') \<and>
          Contains content ''kind: Deployment'' \<and> deploymentNameOf content \<noteq> [] \<and>
          Content u = updateMemoryLimits content (newLimitFor (memoryLimitOf content)) \<and>
          Content u \<noteq> content"
proof -
  from assms obtain name content
    where nc: "(name, content) \<in> set files" "u \<in> set (fileFallback (name, content))"
    unfolding fallback_iff[OF assms(1)] by blast
  from nc(2)[unfolded fileFallback_iff] nc(1) show ?thesis
    by (intro exI[of _ content]) simp
qed

lemma fallback_updates_complete:
  assumes "isOOM solution" and "(name, content) \<in> set files"
    and "HasSuffix name ''.yaml'' \<or> HasSuffix name ''.yml''"
    and "Contains content ''kind: Deployment''" and "deploymentNameOf content \<noteq> []"
    and "updateMemoryLimits content (newLimitFor (memoryLimitOf content)) \<noteq> content"
  shows "\<lparr>Path = name, Content = updateMemoryLimits content (newLimitFor (memoryLimitOf content))\<rparr>
           \<in> set (generateLocalFallbackResponse solution files)"
  using assms(2-) unfolding fallback_iff[OF assms(1)] fileFallback_iff by blast

text \<open>
  Two manifests with a memory limit, and a file that is no manifest: \<open>6Mi\<close> becomes
  \<open>256Mi\<close>, \<open>128Mi\<close> becomes \<open>192Mi\<close>, and the third file gets no update.
\<close>

lemma fallback_two_manifests:
  "generateLocalFallbackResponse oom_solution two_manifests
     = [\<lparr>Path = ''deployment.yaml'', Content = deployment_256Mi\<rparr>,
        \<lparr>Path = ''web.yml'', Content = deployment_192Mi\<rparr>] \<and>
   newLimitFor ''6Mi'' = ''256Mi'' \<and> newLimitFor ''128Mi'' = ''192Mi''"
  by code_simp

text \<open>
  The \<open>inLimits\<close> flag of \<open>updateMemoryLimits\<close> is cleared only by a \<open>requests:\<close> line and
  by an unindented line. An indented \<open>memory:\<close> line of a later block is therefore
  rewritten as if it were the limit: here the one under \<open>nodeSelector\<close>, in a manifest
  whose limits hold no memory entry.
\<close>

lemma limits_flag_outlives_block:
  "memoryLimitOf deployment_node_selector = ''high'' \<and>
   newLimitFor (memoryLimitOf deployment_node_selector) = ''256Mi'' \<and>
   generateLocalFallbackResponse oom_solution [(''deployment.yaml'', deployment_node_selector)]
     = [\<lparr>Path = ''deployment.yaml'', Content = deployment_node_selector_256Mi\<rparr>]"
  by code_simp

text \<open>
  Claim C3, at a Deployment manifest whose limits hold no memory entry. The solution
  text reports an out-of-memory condition, the file is a \<open>.yaml\<close> file with the
  Deployment marker and the name \<open>web\<close>, no memory limit is found, and the target
  chosen is \<open>256Mi\<close>: the branch that the code comments as setting a reasonable default
  and that logs \<open>Updating memory limit to 256Mi\<close>. The rewriting with that target
  returns the file as it is, since it only replaces \<open>memory:\<close> lines that exist, and the
  heuristic returns no update: the limit is not set to \<open>256Mi\<close>.
\<close>

theorem fallback_absent_limit_unset:
  "isOOM oom_solution \<and> HasSuffix ''deployment.yaml'' ''.yaml'' \<and>
   Contains deployment_no_memory ''kind: Deployment'' \<and>
   deploymentNameOf deployment_no_memory = ''web'' \<and>
   memoryLimitOf deployment_no_memory = [] \<and>
   newLimitFor (memoryLimitOf deployment_no_memory) = ''256Mi'' \<and>
   updateMemoryLimits deployment_no_memory ''256Mi'' = deployment_no_memory \<and>
   generateLocalFallbackResponse oom_solution [(''deployment.yaml'', deployment_no_memory)] = []"
  by code_simp

theorem fallback_absent_limit_witness:
  "isOOM oom_solution \<and> memoryLimitOf deployment_no_memory = [] \<and>
   updateMemoryLimits deployment_no_memory ''256Mi'' = deployment_no_memory \<and>
   generateLocalFallbackResponse oom_solution [(''deployment.yaml'', deployment_no_memory)] = []"
  using fallback_absent_limit_unset by (elim conjE) (intro conjI)

section \<open>Applying the heuristic twice\<close>

text \<open>
  Claim C4, as the code has it. Rewriting the memory limits is idempotent for a fixed
  target: applied to its own output with the same limit, \<open>updateMemoryLimits\<close> changes
  nothing. (The heuristic as a whole computes a new target from the patched file.)
\<close>

theorem limits_rewrite_idempotent:
  "ascii_text content \<Longrightarrow> ascii_text newLimit \<Longrightarrow> CHR ''\<newline>'' \<notin> set newLimit \<Longrightarrow>
     updateMemoryLimits (updateMemoryLimits content newLimit) newLimit
       = updateMemoryLimits content newLimit"
  by (rule updateMemoryLimits_idem)

theorem limits_rewrite_witness:
  "ascii_text deployment_128Mi \<and> ascii_text ''192Mi'' \<and> CHR ''\<newline>'' \<notin> set ''192Mi'' \<and>
   updateMemoryLimits deployment_128Mi ''192Mi'' = deployment_192Mi \<and>
   updateMemoryLimits deployment_192Mi ''192Mi'' = deployment_192Mi"
proof -
  have a: "ascii_text deployment_128Mi" "ascii_text ''192Mi''" by code_simp+
  have n: "CHR ''\<newline>'' \<notin> set ''192Mi''" by simp
  have ev: "updateMemoryLimits deployment_128Mi ''192Mi'' = deployment_192Mi" by code_simp
  from limits_rewrite_idempotent[OF a n] ev a show ?thesis by simp
qed

text \<open>
  The claim as the specification states it fails: the second pass over the file
  patched to \<open>192Mi\<close> produces a further update, to \<open>288Mi\<close>.
\<close>

theorem fallback_second_pass_counterexample:
  "generateLocalFallbackResponse oom_solution [(''deployment.yaml'', deployment_128Mi)]
     = [\<lparr>Path = ''deployment.yaml'', Content = deployment_192Mi\<rparr>] \<and>
   generateLocalFallbackResponse oom_solution [(''deployment.yaml'', deployment_192Mi)]
     = [\<lparr>Path = ''deployment.yaml'', Content = deployment_288Mi\<rparr>]"
  by code_simp

end
